theory Spec2Isabelle
  imports Complex_Main
begin

section \<open>Data model of \<^verbatim>\<open>src/index.ts\<close>\<close>

text \<open>
  The objects are the ones the zod schemas of the source produce.  JavaScript numbers
  that carry money are modelled as exact rationals (\<^typ>\<open>rat\<close>), identifiers, currency
  codes and instants as integers.  A \<^verbatim>\<open>Date\<close> is its time value in milliseconds since
  the epoch.  A nullable or optional field is an \<^typ>\<open>'a option\<close>.
\<close>

text \<open>An element of \<^verbatim>\<open>clientDataSchema.accounts\<close>.\<close>

record bank_account =
  account_id :: string
  account_currencyCode :: int
  account_balance :: rat
  account_iban :: string

text \<open>\<^verbatim>\<open>statementItemSchema\<close>, after its transform: \<^verbatim>\<open>time\<close> is a \<^verbatim>\<open>Date\<close>.\<close>

record statement_item =
  statement_id :: string
  statement_time :: int
  statement_description :: string
  statement_amount :: rat
  statement_balance :: rat
  statement_comment :: "string option"
  statement_currencyCode :: int

text \<open>\<^verbatim>\<open>fireflyAccountSchema\<close>, with its \<^verbatim>\<open>attributes\<close> flattened.\<close>

record firefly_account =
  ff_id :: int
  ff_iban :: "string option"
  ff_current_balance :: rat

text \<open>\<^verbatim>\<open>fireflyTransactionItemSchema\<close>: only the fields \<^verbatim>\<open>recover\<close> reads.\<close>

record firefly_journal =
  journal_date :: int
  journal_tags :: "string list"
  journal_source_id :: "int option"
  journal_source_iban :: "string option"
  journal_destination_id :: "int option"
  journal_destination_iban :: "string option"
  journal_amount :: rat
  journal_type :: string
  journal_external_id :: "string option"
  journal_external_url :: "string option"

text \<open>\<^verbatim>\<open>fireflyTransactionSchema\<close>: \<^verbatim>\<open>attributes.transactions\<close>.\<close>

record firefly_transaction =
  transaction_id :: int
  transaction_journals :: "firefly_journal list"

text \<open>
  The object literal \<^verbatim>\<open>monobankToFireflyTransaction\<close> returns.  The computed key
  \<^verbatim>\<open>[amount > 0 ? 'destination_id' : 'source_id']\<close> leaves the other key absent, so both
  are optional fields here.  \<^verbatim>\<open>payload_date\<close> is the instant that \<^verbatim>\<open>toISOString\<close>
  renders and \<^verbatim>\<open>payload_amount\<close> the number that \<^verbatim>\<open>String\<close> renders; the two
  renderings are the runtime's and are not part of this model.
\<close>

record payload =
  payload_type :: string
  payload_date :: int
  payload_currency_code :: string
  payload_amount :: rat
  payload_description :: string
  payload_notes :: "string option"
  payload_destination_id :: "int option"
  payload_source_id :: "int option"
  payload_external_id :: string
  payload_external_url :: string
  payload_tags :: "string list"

text \<open>What a \<^verbatim>\<open>throw\<close> of the source carries.\<close>

datatype error = TypeError | HTTPError

text \<open>
  The calls that leave the process, in the order they are made: a statement fetch
  (\<^verbatim>\<open>getMonobankStatements\<close>), a call of the mapper, a creation request
  (\<^verbatim>\<open>createFireflyTransaction\<close>, with the value it was handed: \<open>None\<close> is
  \<^verbatim>\<open>null\<close>), the count \<^verbatim>\<open>recover\<close> logs when a backfill is through, and the two log
  lines of the start-up code that tell how recovery ended.
\<close>

datatype event =
  Fetch string int "int option"
| Mapped string string
| Post "payload option"
| Recovered int
| RecoveryDone
| RecoveryFailed error

text \<open>
  Everything outside the process: the two module-level snapshots (lines 191 and 192),
  the ledger's transaction sequence (all of its pages, as one list), the bank's and the
  ledger's answers (\<open>Inl\<close> is a request that fails for good), the table of
  the \<^verbatim>\<open>currency-codes\<close> package (\<open>None\<close> is \<^verbatim>\<open>undefined\<close>) as looked up through the
  template string of line 210, and the offset of the process's time zone from UTC in
  milliseconds, which \<^verbatim>\<open>startOfDay\<close> and \<^verbatim>\<open>endOfDay\<close> of date-fns work in.
\<close>

record world =
  clientData :: "bank_account list"
  fireflyAccounts :: "firefly_account list"
  fireflyTransactions :: "firefly_transaction list"
  personal_client_info :: "error + bank_account list"
  personal_statement :: "string \<Rightarrow> int \<Rightarrow> int option \<Rightarrow> error + statement_item list"
  post_transactions :: "payload option \<Rightarrow> error option"
  currencyCodes_number :: "int \<Rightarrow> string option"
  utcOffset :: int

text \<open>
  The mutable part: the cache file \<^verbatim>\<open>./data/client-data.json\<close> (its mtime and content,
  \<open>None\<close> when the file does not exist), the clock \<^verbatim>\<open>Date.now()\<close>, and the calls made
  so far.  The clock belongs to the environment: no function below moves it.
\<close>

record state =
  cache :: "(int \<times> bank_account list) option"
  now :: int
  trace :: "event list"

definition TRANSACTION_TAG :: string where
  "TRANSACTION_TAG = ''monosync''"

definition CLIENT_DATA_CACHE_LIFETIME :: int where
  "CLIENT_DATA_CACHE_LIFETIME = 1000 * 60 * 5"

section \<open>Account directory and mapper\<close>

text \<open>\<^verbatim>\<open>getMonobankClientData\<close> (lines 124 to 144).\<close>

definition getMonobankClientData ::
  "world \<Rightarrow> bool \<Rightarrow> state \<Rightarrow> (error + bank_account list) \<times> state" where
  "getMonobankClientData w force s =
     (let fetch = (case personal_client_info w of
                     Inl e \<Rightarrow> (Inl e, s)
                   | Inr data \<Rightarrow> (Inr data, s\<lparr>cache := Some (now s, data)\<rparr>))
      in if \<not> force then
           (case cache s of
              None \<Rightarrow> fetch
            | Some (mtime, content) \<Rightarrow>
                if now s - mtime < CLIENT_DATA_CACHE_LIFETIME then (Inr content, s)
                else fetch)
         else fetch)"

text \<open>\<^verbatim>\<open>monobankToFireflyTransaction\<close> (lines 194 to 219); \<open>Inr None\<close> is \<^verbatim>\<open>null\<close>.\<close>

definition monobankToFireflyTransaction ::
  "world \<Rightarrow> string \<Rightarrow> statement_item \<Rightarrow> state \<Rightarrow> (error + payload option) \<times> state" where
  "monobankToFireflyTransaction w accountId statementItem s =
     (case getMonobankClientData w False s of
        (Inl e, s') \<Rightarrow> (Inl e, s')
      | (Inr accounts, s') \<Rightarrow>
          (case find (\<lambda>account. account_id account = accountId) accounts of
             None \<Rightarrow> (Inr None, s')
           | Some monobankAccount \<Rightarrow>
               (case find (\<lambda>account. ff_iban account = Some (account_iban monobankAccount))
                       (fireflyAccounts w) of
                  None \<Rightarrow> (Inr None, s')
                | Some fireflyAccount \<Rightarrow>
                    (case currencyCodes_number w (statement_currencyCode statementItem) of
                       None \<Rightarrow> (Inl TypeError, s')
                     | Some code \<Rightarrow>
                         (Inr (Some \<lparr>
                            payload_type =
                              (if statement_amount statementItem > 0 then ''deposit''
                               else ''withdrawal''),
                            payload_date = statement_time statementItem,
                            payload_currency_code = code,
                            payload_amount = \<bar>statement_amount statementItem\<bar> / 100,
                            payload_description = statement_description statementItem,
                            payload_notes = statement_comment statementItem,
                            payload_destination_id =
                              (if statement_amount statementItem > 0
                               then Some (ff_id fireflyAccount) else None),
                            payload_source_id =
                              (if statement_amount statementItem > 0
                               then None else Some (ff_id fireflyAccount)),
                            payload_external_id = statement_id statementItem,
                            payload_external_url = ''https://api.monobank.ua'',
                            payload_tags = [TRANSACTION_TAG]\<rparr>), s')))))"

section \<open>Ledger writer and the webhook handler\<close>

text \<open>\<^verbatim>\<open>createFireflyTransaction\<close> (lines 221 to 238): the request is sent, then a
  failure response is rethrown.\<close>

definition createFireflyTransaction ::
  "world \<Rightarrow> payload option \<Rightarrow> state \<Rightarrow> (error + unit) \<times> state" where
  "createFireflyTransaction w transaction s =
     (let s' = s\<lparr>trace := trace s @ [Post transaction]\<rparr>
      in case post_transactions w transaction of
           Some e \<Rightarrow> (Inl e, s')
         | None \<Rightarrow> (Inr (), s'))"

text \<open>The mapper as its callers see it: the call is recorded first.\<close>

definition call_mapper ::
  "world \<Rightarrow> string \<Rightarrow> statement_item \<Rightarrow> state \<Rightarrow> (error + payload option) \<times> state" where
  "call_mapper w accountId statementItem s =
     monobankToFireflyTransaction w accountId statementItem
       (s\<lparr>trace := trace s @ [Mapped accountId (statement_id statementItem)]\<rparr>)"

text \<open>The handler of \<^verbatim>\<open>fastify.post\<close> (lines 330 to 351), on a request body that
  passed the schema.\<close>

definition fastify_post ::
  "world \<Rightarrow> string \<times> statement_item \<Rightarrow> state \<Rightarrow> (error + unit) \<times> state" where
  "fastify_post w request s =
     (case request of (monoAccountId, statementItem) \<Rightarrow>
        (case call_mapper w monoAccountId statementItem s of
           (Inl e, s') \<Rightarrow> (Inl e, s')
         | (Inr transaction, s') \<Rightarrow> createFireflyTransaction w transaction s'))"

section \<open>Recovery\<close>


text \<open>date-fns: \<^verbatim>\<open>getUnixTime\<close> is the floor of the seconds; \<^verbatim>\<open>startOfDay\<close> and
  \<^verbatim>\<open>endOfDay\<close> are the first and the last millisecond of the local calendar day.\<close>

definition getUnixTime :: "int \<Rightarrow> int" where
  "getUnixTime date = date div 1000"



text \<open>\<^verbatim>\<open>getMonobankStatements\<close> (lines 146 to 152).\<close>

definition getMonobankStatements ::
  "world \<Rightarrow> string \<Rightarrow> int \<Rightarrow> int option \<Rightarrow> state \<Rightarrow> (error + statement_item list) \<times> state" where
  "getMonobankStatements w accountId from to s =
     (personal_statement w accountId from to, s\<lparr>trace := trace s @ [Fetch accountId from to]\<rparr>)"

text \<open>
  \<^verbatim>\<open>importedStatementIds\<close> is kept as the sequence of the ids it was built from and the
  ids \<^verbatim>\<open>add\<close> was called with, in that order: \<^verbatim>\<open>has\<close> is membership, \<^verbatim>\<open>size\<close> the
  number of different ids.

  The loop over one page (lines 289 to 302).
\<close>

fun import_statements ::
  "world \<Rightarrow> string \<Rightarrow> statement_item list \<Rightarrow> string list \<Rightarrow> state
     \<Rightarrow> (error + unit) \<times> string list \<times> state" where
  "import_statements w accountId [] ids s = (Inr (), ids, s)"
| "import_statements w accountId (statement # statements) ids s =
     (if statement_id statement \<in> set ids then import_statements w accountId statements ids s
      else
        (case call_mapper w accountId statement s of
           (Inl e, s1) \<Rightarrow> (Inl e, ids @ [statement_id statement], s1)
         | (Inr transaction, s1) \<Rightarrow>
             (case createFireflyTransaction w transaction s1 of
                (Inl e, s2) \<Rightarrow> (Inl e, ids @ [statement_id statement], s2)
              | (Inr u, s2) \<Rightarrow>
                  import_statements w accountId statements
                    (ids @ [statement_id statement]) s2)))"

text \<open>The \<^verbatim>\<open>while (true)\<close> of lines 286 to 308; \<open>None\<close> is a loop that never ends.\<close>

partial_function (option) page_walk ::
  "world \<Rightarrow> string \<Rightarrow> int \<Rightarrow> int option \<Rightarrow> string list \<Rightarrow> state
     \<Rightarrow> ((error + unit) \<times> string list \<times> state) option" where
  "page_walk w accountId from to ids s =
     (case getMonobankStatements w accountId from to s of
        (Inl e, s1) \<Rightarrow> Some (Inl e, ids, s1)
      | (Inr statements, s1) \<Rightarrow>
          (case import_statements w accountId statements ids s1 of
             (Inl e, ids', s2) \<Rightarrow> Some (Inl e, ids', s2)
           | (Inr u, ids', s2) \<Rightarrow>
               if length statements < 500 then Some (Inr (), ids', s2)
               else page_walk w accountId from
                      (Some (getUnixTime (statement_time (last statements)))) ids' s2))"

text \<open>The loop over \<^verbatim>\<open>clientData.accounts\<close> (line 283).\<close>

fun walk_accounts ::
  "world \<Rightarrow> int \<Rightarrow> bank_account list \<Rightarrow> string list \<Rightarrow> state
     \<Rightarrow> ((error + unit) \<times> string list \<times> state) option" where
  "walk_accounts w from [] ids s = Some (Inr (), ids, s)"
| "walk_accounts w from (account # accounts) ids s =
     (case page_walk w (account_id account) from None ids s of
        None \<Rightarrow> None
      | Some (Inl e, ids', s') \<Rightarrow> Some (Inl e, ids', s')
      | Some (Inr u, ids', s') \<Rightarrow> walk_accounts w from accounts ids' s')"

text \<open>Lines 279 to 313: the backfill from a starting statement, up to the \<^verbatim>\<open>return\<close>.\<close>

definition backfill ::
  "world \<Rightarrow> statement_item \<Rightarrow> state \<Rightarrow> ((error + unit) \<times> string list \<times> state) option" where
  "backfill w startingStatement s =
     (case walk_accounts w (getUnixTime (statement_time startingStatement)) (clientData w)
             [statement_id startingStatement] s of
        None \<Rightarrow> None
      | Some (Inl e, ids, s') \<Rightarrow> Some (Inl e, ids, s')
      | Some (Inr u, ids, s') \<Rightarrow>
          Some (Inr (), ids, s'\<lparr>trace := trace s' @ [Recovered (int (card (set ids)) - 1)]\<rparr>))"









declare page_walk.simps [code]

section \<open>Reading a trace\<close>

text \<open>The ids the mapper was called with, in order.\<close>

fun event_mapped :: "event \<Rightarrow> string list" where
  "event_mapped (Mapped accountId statementId) = [statementId]"
| "event_mapped e = []"

definition mapped_ids :: "event list \<Rightarrow> string list" where
  "mapped_ids tr = concat (map event_mapped tr)"

text \<open>The number of creation requests that carry a payload with the external id \<open>i\<close>.\<close>

fun is_creation :: "string \<Rightarrow> event \<Rightarrow> bool" where
  "is_creation i (Post (Some p)) = (payload_external_id p = i)"
| "is_creation i e = False"

definition creation_calls :: "string \<Rightarrow> event list \<Rightarrow> nat" where
  "creation_calls i tr = length (filter (is_creation i) tr)"

text \<open>The number of statement fetches, and the statements they returned.\<close>

fun is_fetch :: "event \<Rightarrow> bool" where
  "is_fetch (Fetch accountId from to) = True"
| "is_fetch e = False"

definition fetch_count :: "event list \<Rightarrow> nat" where
  "fetch_count tr = length (filter is_fetch tr)"

fun event_fetched :: "world \<Rightarrow> event \<Rightarrow> statement_item list" where
  "event_fetched w (Fetch accountId from to) =
     (case personal_statement w accountId from to of Inl e \<Rightarrow> [] | Inr page \<Rightarrow> page)"
| "event_fetched w e = []"

definition fetched_statements :: "world \<Rightarrow> event list \<Rightarrow> statement_item list" where
  "fetched_statements w tr = concat (map (event_fetched w) tr)"

text \<open>What a run added to the trace.\<close>

definition added :: "state \<Rightarrow> state \<Rightarrow> event list" where
  "added s s' = drop (length (trace s)) (trace s')"

section \<open>The collaborators, as the specification describes them\<close>

text \<open>
  The Account Directory's contract \<^verbatim>\<open>resolve(bankAccountId)\<close>, in the specification's
  words: look the bank account up by id; if absent, not found; otherwise find the ledger
  account whose iban equals the bank account's iban.
\<close>

definition resolve ::
  "firefly_account list \<Rightarrow> bank_account list \<Rightarrow> string \<Rightarrow> firefly_account option" where
  "resolve ledgerAccounts bankAccounts bankAccountId =
     (case find (\<lambda>b. account_id b = bankAccountId) bankAccounts of
        None \<Rightarrow> None
      | Some b \<Rightarrow> find (\<lambda>l. ff_iban l = Some (account_iban b)) ledgerAccounts)"

text \<open>
  Modelled from the spec: the bank's statement endpoint is a remote service and not part
  of the sources.  \<^verbatim>\<open>fetch(accountId, fromInclusive, toInclusive?)\<close> returns the entries
  of the account's history (held newest first) whose time in seconds lies between the two
  bounds, both inclusive, capped at a page of 500.
\<close>

definition statement_seconds :: "statement_item \<Rightarrow> int" where
  "statement_seconds e = getUnixTime (statement_time e)"

definition in_window :: "int \<Rightarrow> int option \<Rightarrow> statement_item \<Rightarrow> bool" where
  "in_window from to e \<longleftrightarrow>
     from \<le> statement_seconds e \<and>
     (case to of None \<Rightarrow> True | Some t \<Rightarrow> statement_seconds e \<le> t)"

definition statement_source ::
  "statement_item list \<Rightarrow> int \<Rightarrow> int option \<Rightarrow> statement_item list" where
  "statement_source history from to = take 500 (filter (in_window from to) history)"

text \<open>A history is held newest first.\<close>

definition newest_first :: "statement_item list \<Rightarrow> bool" where
  "newest_first history \<longleftrightarrow>
     sorted_wrt (\<lambda>x y. statement_seconds y \<le> statement_seconds x) history"

text \<open>How many entries of a history carry the time \<open>t\<close>.\<close>

definition entries_at :: "statement_item list \<Rightarrow> int \<Rightarrow> nat" where
  "entries_at history t = length (filter (\<lambda>e. statement_seconds e = t) history)"

section \<open>Example worlds\<close>

text \<open>
  Two bank accounts, of which only the first has a ledger account with its iban; a
  ledger that accepts every request; a currency table that knows 980 only; a process
  that runs in UTC.
\<close>

definition account_A :: bank_account where
  "account_A = \<lparr>account_id = ''acc-A'', account_currencyCode = 980,
                 account_balance = 95000, account_iban = ''UA01''\<rparr>"

definition account_B :: bank_account where
  "account_B = \<lparr>account_id = ''acc-B'', account_currencyCode = 980,
                 account_balance = 0, account_iban = ''UA02''\<rparr>"

definition ledger_A :: firefly_account where
  "ledger_A = \<lparr>ff_id = 7, ff_iban = Some ''UA01'', ff_current_balance = 1000\<rparr>"

definition entry :: "string \<Rightarrow> int \<Rightarrow> rat \<Rightarrow> rat \<Rightarrow> int \<Rightarrow> statement_item" where
  "entry i t a b c =
     \<lparr>statement_id = i, statement_time = t * 1000, statement_description = ''coffee'',
      statement_amount = a, statement_balance = b, statement_comment = None,
      statement_currencyCode = c\<rparr>"

definition example_world ::
  "(string \<Rightarrow> statement_item list) \<Rightarrow> firefly_transaction list \<Rightarrow> world" where
  "example_world history ledger =
     \<lparr>clientData = [account_A, account_B], fireflyAccounts = [ledger_A],
      fireflyTransactions = ledger, personal_client_info = Inr [account_A, account_B],
      personal_statement = (\<lambda>a f t. Inr (statement_source (history a) f t)),
      post_transactions = (\<lambda>t. None),
      currencyCodes_number = (\<lambda>n. if n = 980 then Some ''UAH'' else None),
      utcOffset = 0\<rparr>"

definition state0 :: state where
  "state0 = \<lparr>cache = None, now = 0, trace = []\<rparr>"

text \<open>A tagged ledger transaction on the ledger account of \<open>account_A\<close>.\<close>

definition tagged_transaction :: "int \<Rightarrow> int \<Rightarrow> string \<Rightarrow> rat \<Rightarrow> firefly_transaction" where
  "tagged_transaction n d ty a =
     \<lparr>transaction_id = n,
      transaction_journals =
        [\<lparr>journal_date = d, journal_tags = [''monosync''],
          journal_source_id = (if ty = ''withdrawal'' then Some 7 else None),
          journal_source_iban = (if ty = ''withdrawal'' then Some ''UA01'' else None),
          journal_destination_id = (if ty = ''withdrawal'' then None else Some 7),
          journal_destination_iban = (if ty = ''withdrawal'' then None else Some ''UA01''),
          journal_amount = a, journal_type = ty,
          journal_external_id = None,
          journal_external_url = Some ''https://api.monobank.ua''\<rparr>]\<rparr>"


text \<open>No history, an empty ledger, and two webhook events: one for each account.\<close>

definition quiet_world :: world where
  "quiet_world = example_world (\<lambda>a. []) []"

definition event_A :: "string \<times> statement_item" where
  "event_A = (''acc-A'', entry ''e1'' 100 (- 5000) 95000 980)"

definition event_B :: "string \<times> statement_item" where
  "event_B = (''acc-B'', entry ''e2'' 100 (- 5000) 95000 980)"

text \<open>
  The anchor of all histories: a withdrawal of 50.00 that left 1000.00, the ledger
  account's current balance.
\<close>

definition anchor_entry :: statement_item where
  "anchor_entry = entry ''anchor'' 100 (- 5000) 100000 980"

text \<open>A history with one entry after the anchor on each account; the ledger's newest
  tagged transaction matches no statement, the one after it matches the anchor.\<close>

definition history_two :: "string \<Rightarrow> statement_item list" where
  "history_two a =
     (if a = ''acc-A'' then [entry ''new'' 300 (- 100) 99900 980, anchor_entry]
      else if a = ''acc-B'' then [entry ''other'' 250 (- 100) 0 980]
      else [])"

definition ledger_two :: "firefly_transaction list" where
  "ledger_two = [tagged_transaction 2 100000 ''withdrawal'' 70,
                 tagged_transaction 1 100000 ''withdrawal'' 50]"

definition world_two :: world where
  "world_two = example_world history_two ledger_two"



text \<open>
  Synthetic histories of \<open>n\<close> entries with different ids: one with the times
  \<open>n - 1, \<dots>, 0\<close>, one with all entries in the same second.
\<close>

definition entry_name :: "nat \<Rightarrow> string" where
  "entry_name k = replicate (Suc k) (CHR ''i'')"

definition synthetic :: "nat \<Rightarrow> statement_item list" where
  "synthetic n = map (\<lambda>k. entry (entry_name k) (int k) (- 100) 0 980) (rev [0..<n])"

definition same_second :: "nat \<Rightarrow> statement_item list" where
  "same_second n = map (\<lambda>k. entry (entry_name k) 100 (- 100) 0 980) [0..<n]"

definition synthetic_world :: "statement_item list \<Rightarrow> world" where
  "synthetic_world history = example_world (\<lambda>a. if a = ''acc-A'' then history else []) []"

section \<open>Reading the anchor search\<close>






section \<open>Reading the page walk\<close>

text \<open>
  A world in which nothing throws while the given entries are imported: the bank's
  directory can be fetched, the currency table knows the code of every entry, and the
  ledger accepts every request.  \<open>in_range\<close> are the entries of a history from the
  lower bound on, \<open>strictly_newest_first\<close> says that they are held newest first with no
  two in the same second, and \<open>walk_measure\<close> counts the entries the next fetch can
  still return.
\<close>

definition error_free :: "world \<Rightarrow> statement_item list \<Rightarrow> bool" where
  "error_free w entries \<longleftrightarrow>
     \<not> isl (personal_client_info w) \<and>
     list_all (\<lambda>e. currencyCodes_number w (statement_currencyCode e) \<noteq> None) entries \<and>
     (\<forall>t. post_transactions w t = None)"

definition in_range :: "statement_item list \<Rightarrow> int \<Rightarrow> statement_item list" where
  "in_range history from = filter (in_window from None) history"

definition walk_measure :: "statement_item list \<Rightarrow> int option \<Rightarrow> nat" where
  "walk_measure history to =
     (case to of None \<Rightarrow> Suc (length history)
      | Some t \<Rightarrow> length (filter (\<lambda>e. statement_seconds e \<le> t) history))"

definition strictly_newest_first :: "statement_item list \<Rightarrow> bool" where
  "strictly_newest_first history \<longleftrightarrow>
     sorted_wrt (\<lambda>x y. statement_seconds y < statement_seconds x) history"

section \<open>Invariants of a backfill\<close>

text \<open>
  What every stretch of a backfill keeps: the ids recorded stay different from each
  other, every id recorded goes with one call of the mapper, and no id has more creation
  requests than mapper calls.  A stretch that ends without an error has recorded the id
  of every statement it fetched.
\<close>

definition pass_trace :: "string list \<Rightarrow> event list \<Rightarrow> bool" where
  "pass_trace ids tr \<longleftrightarrow>
     (distinct ids \<longrightarrow> distinct (ids @ mapped_ids tr)) \<and>
     (\<forall>i. creation_calls i tr \<le> count_list (mapped_ids tr) i)"

definition walk_post ::
  "world \<Rightarrow> string list \<Rightarrow> state \<Rightarrow> (error + unit) \<Rightarrow> string list \<Rightarrow> state \<Rightarrow> bool" where
  "walk_post w ids s r ids' s' \<longleftrightarrow>
     (\<exists>tr. trace s' = trace s @ tr \<and> ids' = ids @ mapped_ids tr \<and> pass_trace ids tr \<and>
           (r = Inr () \<longrightarrow> statement_id ` set (fetched_statements w tr) \<subseteq> set ids'))"

section \<open>Properties of the mapper\<close>

lemma getMonobankClientData_trace:
  "getMonobankClientData w force s = (r, s') \<Longrightarrow> trace s' = trace s"
  by (auto simp: getMonobankClientData_def Let_def split: sum.splits option.splits if_splits)

lemma getMonobankClientData_trace_update:
  "fst (getMonobankClientData w force (s\<lparr>trace := tr\<rparr>)) = fst (getMonobankClientData w force s)"
  by (auto simp: getMonobankClientData_def Let_def split: sum.splits option.splits if_splits)

lemma mapper_trace:
  "monobankToFireflyTransaction w a e s = (r, s') \<Longrightarrow> trace s' = trace s"
  unfolding monobankToFireflyTransaction_def
  by (auto split: sum.splits option.splits prod.splits dest: getMonobankClientData_trace)

lemma mapper_external_id:
  "monobankToFireflyTransaction w a e s = (Inr (Some p), s') \<Longrightarrow>
     payload_external_id p = statement_id e"
  unfolding monobankToFireflyTransaction_def
  by (auto split: sum.splits option.splits prod.splits)


text \<open>
  Claim C7.  For every entry the mapper maps to a payload: the type is \<open>deposit\<close> if and
  only if the entry's amount is positive and \<open>withdrawal\<close> otherwise; the ledger account
  the bank account resolves to has its id in \<open>destination_id\<close> when depositing and in
  \<open>source_id\<close> when withdrawing, and the other of the two is absent; the external id is
  the entry's id, the external url the fixed marker, and the tags are the provenance tag
  alone.
\<close>

theorem mapper_payload_fields:
  assumes "monobankToFireflyTransaction w accountId statementItem s = (Inr (Some p), s')"
  shows "(payload_type p = ''deposit'' \<longleftrightarrow> statement_amount statementItem > 0) \<and>
         (payload_type p = ''withdrawal'' \<longleftrightarrow> \<not> statement_amount statementItem > 0) \<and>
         (case fst (getMonobankClientData w False s) of
            Inl err \<Rightarrow> False
          | Inr accounts \<Rightarrow>
              (case resolve (fireflyAccounts w) accounts accountId of
                 None \<Rightarrow> False
               | Some fireflyAccount \<Rightarrow>
                   if statement_amount statementItem > 0
                   then payload_destination_id p = Some (ff_id fireflyAccount) \<and>
                        payload_source_id p = None
                   else payload_source_id p = Some (ff_id fireflyAccount) \<and>
                        payload_destination_id p = None)) \<and>
         payload_external_id p = statement_id statementItem \<and>
         payload_external_url p = ''https://api.monobank.ua'' \<and>
         payload_tags p = [''monosync'']"
proof -
  from assms obtain accounts b l code where
    g: "fst (getMonobankClientData w False s) = Inr accounts"
    and b: "find (\<lambda>account. account_id account = accountId) accounts = Some b"
    and l: "find (\<lambda>account. ff_iban account = Some (account_iban b)) (fireflyAccounts w) = Some l"
    and p: "p = \<lparr>payload_type =
                    (if statement_amount statementItem > 0 then ''deposit'' else ''withdrawal''),
                  payload_date = statement_time statementItem,
                  payload_currency_code = code,
                  payload_amount = \<bar>statement_amount statementItem\<bar> / 100,
                  payload_description = statement_description statementItem,
                  payload_notes = statement_comment statementItem,
                  payload_destination_id =
                    (if statement_amount statementItem > 0 then Some (ff_id l) else None),
                  payload_source_id =
                    (if statement_amount statementItem > 0 then None else Some (ff_id l)),
                  payload_external_id = statement_id statementItem,
                  payload_external_url = ''https://api.monobank.ua'',
                  payload_tags = [TRANSACTION_TAG]\<rparr>"
    unfolding monobankToFireflyTransaction_def
    by (auto split: sum.splits option.splits prod.splits)
  have res: "resolve (fireflyAccounts w) accounts accountId = Some l"
    using b l by (simp add: resolve_def)
  show ?thesis
    using g res by (cases "statement_amount statementItem > 0") (simp_all add: p TRANSACTION_TAG_def)
qed

theorem mapper_payload_fields_witness:
  "monobankToFireflyTransaction quiet_world (fst event_A) (snd event_A) state0
     = (Inr (Some \<lparr>payload_type = ''withdrawal'', payload_date = 100000,
                    payload_currency_code = ''UAH'', payload_amount = 50,
                    payload_description = ''coffee'', payload_notes = None,
                    payload_destination_id = None, payload_source_id = Some 7,
                    payload_external_id = ''e1'',
                    payload_external_url = ''https://api.monobank.ua'',
                    payload_tags = [''monosync'']\<rparr>),
        state0\<lparr>cache := Some (0, [account_A, account_B])\<rparr>) \<and>
   \<not> statement_amount (snd event_A) > 0 \<and>
   resolve (fireflyAccounts quiet_world) [account_A, account_B] (fst event_A) = Some ledger_A"
proof -
  have h: "monobankToFireflyTransaction quiet_world (fst event_A) (snd event_A) state0
     = (Inr (Some \<lparr>payload_type = ''withdrawal'', payload_date = 100000,
                    payload_currency_code = ''UAH'', payload_amount = 50,
                    payload_description = ''coffee'', payload_notes = None,
                    payload_destination_id = None, payload_source_id = Some 7,
                    payload_external_id = ''e1'',
                    payload_external_url = ''https://api.monobank.ua'',
                    payload_tags = [''monosync'']\<rparr>),
        state0\<lparr>cache := Some (0, [account_A, account_B])\<rparr>)"
    by code_simp
  have r: "resolve (fireflyAccounts quiet_world) [account_A, account_B] (fst event_A) = Some ledger_A"
    by code_simp
  from mapper_payload_fields [OF h] have "\<not> statement_amount (snd event_A) > 0" by simp
  with h r show ?thesis by simp
qed






section \<open>Traces\<close>

lemma mapped_ids_simps [simp]:
  "mapped_ids [] = []"
  "mapped_ids (a @ b) = mapped_ids a @ mapped_ids b"
  "mapped_ids (Mapped accountId i # tr) = i # mapped_ids tr"
  "mapped_ids (Post t # tr) = mapped_ids tr"
  "mapped_ids (Fetch accountId from to # tr) = mapped_ids tr"
  "mapped_ids (Recovered n # tr) = mapped_ids tr"
  by (simp_all add: mapped_ids_def)

lemma creation_calls_simps [simp]:
  "creation_calls i [] = 0"
  "creation_calls i (a @ b) = creation_calls i a + creation_calls i b"
  "creation_calls i (Mapped accountId j # tr) = creation_calls i tr"
  "creation_calls i (Post None # tr) = creation_calls i tr"
  "creation_calls i (Post (Some p) # tr) =
     (if payload_external_id p = i then 1 else 0) + creation_calls i tr"
  "creation_calls i (Fetch accountId from to # tr) = creation_calls i tr"
  "creation_calls i (Recovered n # tr) = creation_calls i tr"
  by (simp_all add: creation_calls_def)

lemma fetch_count_simps [simp]:
  "fetch_count [] = 0"
  "fetch_count (a @ b) = fetch_count a + fetch_count b"
  "fetch_count (Mapped accountId j # tr) = fetch_count tr"
  "fetch_count (Post t # tr) = fetch_count tr"
  "fetch_count (Fetch accountId from to # tr) = Suc (fetch_count tr)"
  "fetch_count (Recovered n # tr) = fetch_count tr"
  by (simp_all add: fetch_count_def)

lemma fetched_statements_simps [simp]:
  "fetched_statements w [] = []"
  "fetched_statements w (a @ b) = fetched_statements w a @ fetched_statements w b"
  "fetched_statements w (Mapped accountId j # tr) = fetched_statements w tr"
  "fetched_statements w (Post t # tr) = fetched_statements w tr"
  "fetched_statements w (Fetch accountId from to # tr) =
     (case personal_statement w accountId from to of Inl e \<Rightarrow> [] | Inr page \<Rightarrow> page)
       @ fetched_statements w tr"
  "fetched_statements w (Recovered n # tr) = fetched_statements w tr"
  by (simp_all add: fetched_statements_def)

lemma added_append [simp]: "trace s' = trace s @ tr \<Longrightarrow> added s s' = tr"
  by (simp add: added_def)

lemma fetch_free:
  "fetch_count tr = 0 \<Longrightarrow> fetched_statements w tr = []"
proof (induction tr)
  case Nil
  then show ?case by simp
next
  case (Cons e tr)
  then show ?case by (cases e) (simp_all add: fetch_count_def fetched_statements_def)
qed

lemma pass_trace_Nil: "pass_trace ids []"
  by (simp add: pass_trace_def)

lemma pass_trace_append:
  assumes "pass_trace ids tr1" "pass_trace (ids @ mapped_ids tr1) tr2"
  shows "pass_trace ids (tr1 @ tr2)"
  using assms unfolding pass_trace_def by (auto simp: add_mono)

lemma pass_trace_Fetch: "pass_trace ids tr \<Longrightarrow> pass_trace ids (Fetch a f t # tr)"
  by (simp add: pass_trace_def)

section \<open>The backfill\<close>

lemma call_mapper_trace:
  "call_mapper w a e s = (r, s') \<Longrightarrow> trace s' = trace s @ [Mapped a (statement_id e)]"
  unfolding call_mapper_def by (auto dest: mapper_trace)

lemma call_mapper_external_id:
  "call_mapper w a e s = (Inr (Some p), s') \<Longrightarrow> payload_external_id p = statement_id e"
  unfolding call_mapper_def by (auto dest: mapper_external_id)

lemma createFireflyTransaction_trace:
  "createFireflyTransaction w t s = (r, s') \<Longrightarrow> trace s' = trace s @ [Post t]"
  by (auto simp: createFireflyTransaction_def Let_def split: option.splits)

text \<open>One unseen statement: its id is recorded, the mapper is called, and what the
  mapper returned is handed to the writer.\<close>

lemma import_one:
  assumes "statement_id e \<notin> set ids"
  shows "\<exists>r ids' s' tr.
           (import_statements w a (e # page) ids s = (Inl r, ids', s') \<or>
            import_statements w a (e # page) ids s = import_statements w a page ids' s') \<and>
           trace s' = trace s @ tr \<and> ids' = ids @ [statement_id e] \<and>
           mapped_ids tr = [statement_id e] \<and> fetch_count tr = 0 \<and>
           (\<forall>i. creation_calls i tr \<le> count_list [statement_id e] i)"
proof -
  obtain rm s1 where m: "call_mapper w a e s = (rm, s1)" by (cases "call_mapper w a e s")
  have t1: "trace s1 = trace s @ [Mapped a (statement_id e)]" using call_mapper_trace[OF m] .
  show ?thesis
  proof (cases rm)
    case (Inl err)
    with assms m t1 show ?thesis
      by (intro exI[of _ err] exI[of _ "ids @ [statement_id e]"] exI[of _ s1]
            exI[of _ "[Mapped a (statement_id e)]"]) simp
  next
    case (Inr t)
    obtain rc s2 where c: "createFireflyTransaction w t s1 = (rc, s2)"
      by (cases "createFireflyTransaction w t s1")
    have t2: "trace s2 = trace s @ [Mapped a (statement_id e), Post t]"
      using createFireflyTransaction_trace[OF c] t1 by simp
    have cc: "\<forall>i. creation_calls i [Mapped a (statement_id e), Post t] \<le> count_list [statement_id e] i"
    proof (cases t)
      case None
      then show ?thesis by simp
    next
      case (Some p)
      with m Inr have "payload_external_id p = statement_id e"
        using call_mapper_external_id by blast
      with Some show ?thesis by simp
    qed
    show ?thesis
    proof (cases rc)
      case (Inl err)
      with assms m Inr c t2 cc show ?thesis
        by (intro exI[of _ err] exI[of _ "ids @ [statement_id e]"] exI[of _ s2]
              exI[of _ "[Mapped a (statement_id e), Post t]"]) simp
    next
      case (Inr u)
      with assms m \<open>rm = Inr t\<close> c t2 cc show ?thesis
        by (intro exI[of _ undefined] exI[of _ "ids @ [statement_id e]"] exI[of _ s2]
              exI[of _ "[Mapped a (statement_id e), Post t]"]) simp
    qed
  qed
qed

lemma import_statements_trace:
  "import_statements w a page ids s = (r, ids', s') \<Longrightarrow>
   \<exists>tr. trace s' = trace s @ tr \<and> ids' = ids @ mapped_ids tr \<and> pass_trace ids tr \<and>
        fetch_count tr = 0 \<and> set (mapped_ids tr) \<subseteq> statement_id ` set page \<and>
        (r = Inr () \<longrightarrow> statement_id ` set page \<subseteq> set ids')"
proof (induction page arbitrary: ids s)
  case Nil
  then show ?case by (simp add: pass_trace_Nil)
next
  case (Cons e page)
  show ?case
  proof (cases "statement_id e \<in> set ids")
    case True
    with Cons.prems have "import_statements w a page ids s = (r, ids', s')" by simp
    from Cons.IH[OF this] obtain tr where tr: "trace s' = trace s @ tr" "ids' = ids @ mapped_ids tr"
      "pass_trace ids tr" "fetch_count tr = 0" "set (mapped_ids tr) \<subseteq> statement_id ` set page"
      "r = Inr () \<longrightarrow> statement_id ` set page \<subseteq> set ids'" by blast
    with True show ?thesis by (intro exI[of _ tr]) auto
  next
    case False
    from import_one[OF False, of w a page s] obtain err ids1 s1 tr1 where
      alt: "import_statements w a (e # page) ids s = (Inl err, ids1, s1) \<or>
            import_statements w a (e # page) ids s = import_statements w a page ids1 s1"
      and tr1: "trace s1 = trace s @ tr1" "ids1 = ids @ [statement_id e]"
        "mapped_ids tr1 = [statement_id e]" "fetch_count tr1 = 0"
        "\<forall>i. creation_calls i tr1 \<le> count_list [statement_id e] i"
      by blast
    have p1: "pass_trace ids tr1"
      using tr1 False by (simp add: pass_trace_def)
    from alt show ?thesis
    proof
      assume "import_statements w a (e # page) ids s = (Inl err, ids1, s1)"
      with Cons.prems have "r = Inl err" "ids' = ids1" "s' = s1" by simp_all
      with tr1 p1 show ?thesis by (intro exI[of _ tr1]) simp
    next
      assume "import_statements w a (e # page) ids s = import_statements w a page ids1 s1"
      with Cons.prems have "import_statements w a page ids1 s1 = (r, ids', s')" by simp
      from Cons.IH[OF this] obtain tr where tr: "trace s' = trace s1 @ tr" "ids' = ids1 @ mapped_ids tr"
        "pass_trace ids1 tr" "fetch_count tr = 0" "set (mapped_ids tr) \<subseteq> statement_id ` set page"
        "r = Inr () \<longrightarrow> statement_id ` set page \<subseteq> set ids'" by blast
      have "pass_trace ids (tr1 @ tr)"
        using p1 tr(3) tr1(2,3) by (intro pass_trace_append) simp_all
      with tr tr1 show ?thesis by (intro exI[of _ "tr1 @ tr"]) auto
    qed
  qed
qed

lemma walk_post_refl: "walk_post w ids s (Inr ()) ids s"
  unfolding walk_post_def by (intro exI[of _ "[]"]) (simp add: pass_trace_Nil)

lemma walk_post_trans:
  assumes "walk_post w ids s (Inr ()) ids1 s1" "walk_post w ids1 s1 r ids2 s2"
  shows "walk_post w ids s r ids2 s2"
proof -
  from assms(1) obtain tr1 where 1: "trace s1 = trace s @ tr1" "ids1 = ids @ mapped_ids tr1"
    "pass_trace ids tr1" "statement_id ` set (fetched_statements w tr1) \<subseteq> set ids1"
    unfolding walk_post_def by blast
  from assms(2) obtain tr2 where 2: "trace s2 = trace s1 @ tr2" "ids2 = ids1 @ mapped_ids tr2"
    "pass_trace ids1 tr2" "r = Inr () \<longrightarrow> statement_id ` set (fetched_statements w tr2) \<subseteq> set ids2"
    unfolding walk_post_def by blast
  have "pass_trace ids (tr1 @ tr2)" using 1 2 by (intro pass_trace_append) simp_all
  moreover have "r = Inr () \<longrightarrow> statement_id ` set (fetched_statements w (tr1 @ tr2)) \<subseteq> set ids2"
    using 1(4) 2(2,4) by auto
  ultimately show ?thesis
    unfolding walk_post_def using 1 2 by (intro exI[of _ "tr1 @ tr2"]) simp
qed

lemma walk_post_error:
  assumes "walk_post w ids s r ids' s'"
  shows "walk_post w ids s (Inl e) ids' s'"
  using assms unfolding walk_post_def by auto

text \<open>One round of the page loop: the fetch and the import of its page.\<close>

lemma page_round:
  assumes "getMonobankStatements w a from to s = (Inr page, s1)"
      and "import_statements w a page ids s1 = (r, ids', s')"
  shows "walk_post w ids s r ids' s'"
proof -
  have t1: "trace s1 = trace s @ [Fetch a from to]" and ps: "personal_statement w a from to = Inr page"
    using assms(1) by (auto simp: getMonobankStatements_def)
  from import_statements_trace[OF assms(2)] obtain tr where tr: "trace s' = trace s1 @ tr"
    "ids' = ids @ mapped_ids tr" "pass_trace ids tr" "fetch_count tr = 0"
    "r = Inr () \<longrightarrow> statement_id ` set page \<subseteq> set ids'" by blast
  show ?thesis unfolding walk_post_def
    using t1 ps tr fetch_free[OF tr(4), of w]
    by (intro exI[of _ "Fetch a from to # tr"]) (simp add: pass_trace_Fetch)
qed

lemmas page_walk_induct = page_walk.raw_induct [rotated 1, consumes 1, case_names round]

lemma page_walk_post:
  "page_walk w a from to ids s = Some y \<Longrightarrow> walk_post w ids s (fst y) (fst (snd y)) (snd (snd y))"
proof (induction rule: page_walk_induct)
  case (round page_walk' w a "from" to ids s y)
  note 1 = round
  obtain rf s1 where f: "getMonobankStatements w a from to s = (rf, s1)"
    by (cases "getMonobankStatements w a from to s")
  show ?case
  proof (cases rf)
    case (Inl err)
    with 1(2) f have y: "y = (Inl err, ids, s1)" by simp
    have "trace s1 = trace s @ [Fetch a from to]"
      using f by (auto simp: getMonobankStatements_def)
    then have "walk_post w ids s (Inl err) ids s1" unfolding walk_post_def
      by (intro exI[of _ "[Fetch a from to]"]) (simp add: pass_trace_def)
    with y show ?thesis by simp
  next
    case (Inr page)
    obtain ri ids1 s2 where i: "import_statements w a page ids s1 = (ri, ids1, s2)"
      by (cases "import_statements w a page ids s1") auto
    from page_round[OF f[unfolded Inr] i] have round: "walk_post w ids s ri ids1 s2" .
    show ?thesis
    proof (cases ri)
      case (Inl err)
      with 1(2) f Inr i have "y = (Inl err, ids1, s2)" by simp
      with round Inl show ?thesis by simp
    next
      case ri: (Inr u)
      show ?thesis
      proof (cases "length page < 500")
        case True
        with 1(2) f Inr i ri have "y = (Inr (), ids1, s2)" by simp
        with round ri show ?thesis by simp
      next
        case False
        with 1(2) f Inr i ri
        have "page_walk' w a from (Some (getUnixTime (statement_time (last page)))) ids1 s2 = Some y"
          by simp
        from 1(1)[OF this]
        have ih: "walk_post w ids1 s2 (fst y) (fst (snd y)) (snd (snd y))" .
        from round ri have "walk_post w ids s (Inr ()) ids1 s2" by simp
        from walk_post_trans[OF this ih] show ?thesis .
      qed
    qed
  qed
qed

lemma walk_accounts_post:
  "walk_accounts w from accounts ids s = Some (r, ids', s') \<Longrightarrow> walk_post w ids s r ids' s'"
proof (induction accounts arbitrary: ids s)
  case Nil
  then show ?case by (auto intro: walk_post_refl)
next
  case (Cons account accounts)
  from Cons.prems obtain r1 ids1 s1 where
    p: "page_walk w (account_id account) from None ids s = Some (r1, ids1, s1)"
    by (auto split: option.splits)
  from page_walk_post[OF p] have w1: "walk_post w ids s r1 ids1 s1" by simp
  show ?case
  proof (cases r1)
    case (Inl err)
    with Cons.prems p have "r = Inl err" "ids' = ids1" "s' = s1" by simp_all
    with w1 Inl show ?thesis by simp
  next
    case (Inr u)
    with Cons.prems p have "walk_accounts w from accounts ids1 s1 = Some (r, ids', s')" by simp
    from Cons.IH[OF this] have ih: "walk_post w ids1 s1 r ids' s'" .
    from w1 Inr have "walk_post w ids s (Inr ()) ids1 s1" by simp
    from walk_post_trans[OF this ih] show ?thesis .
  qed
qed

text \<open>What a backfill adds to the trace.\<close>

lemma backfill_trace:
  assumes "backfill w startingStatement s = Some (r, ids, s')"
  shows "\<exists>tr. added s s' = tr @ (if r = Inr () then [Recovered (int (length (mapped_ids tr)))] else []) \<and>
              ids = statement_id startingStatement # mapped_ids tr \<and> distinct ids \<and>
              (\<forall>i. creation_calls i tr \<le> count_list (mapped_ids tr) i) \<and>
              (r = Inr () \<longrightarrow> statement_id ` set (fetched_statements w tr) \<subseteq> set ids)"
proof -
  from assms obtain s1 where
    wa: "walk_accounts w (getUnixTime (statement_time startingStatement)) (clientData w)
           [statement_id startingStatement] s = Some (r, ids, s1)"
    and s': "s' = (if r = Inr () then s1\<lparr>trace := trace s1 @ [Recovered (int (card (set ids)) - 1)]\<rparr> else s1)"
    unfolding backfill_def by (auto split: option.splits sum.splits)
  from walk_accounts_post[OF wa] obtain tr where tr: "trace s1 = trace s @ tr"
    "ids = [statement_id startingStatement] @ mapped_ids tr"
    "pass_trace [statement_id startingStatement] tr"
    "r = Inr () \<longrightarrow> statement_id ` set (fetched_statements w tr) \<subseteq> set ids"
    unfolding walk_post_def by blast
  have d: "distinct ids" using tr(2,3) by (simp add: pass_trace_def)
  then have "card (set ids) = length ids" by (rule distinct_card)
  then have n: "int (card (set ids)) - 1 = int (length (mapped_ids tr))" using tr(2) by simp
  have "added s s' = tr @ (if r = Inr () then [Recovered (int (length (mapped_ids tr)))] else [])"
    using s' tr(1) n by (simp add: added_def)
  with tr d show ?thesis unfolding pass_trace_def by (intro exI[of _ tr]) simp
qed

lemma count_list_distinct: "distinct xs \<Longrightarrow> count_list xs x \<le> 1"
  by (induction xs) auto

lemma count_list_notin: "x \<notin> set xs \<Longrightarrow> count_list xs x = 0"
  by (induction xs) auto

lemma fastify_post_trace:
  assumes "fst (call_mapper w a e s) = Inr (Some p)"
  shows "added s (snd (fastify_post w (a, e) s)) = [Mapped a (statement_id e), Post (Some p)] \<and>
         payload_external_id p = statement_id e"
proof -
  obtain s1 where m: "call_mapper w a e s = (Inr (Some p), s1)"
    using assms by (cases "call_mapper w a e s") simp
  obtain rc s2 where c: "createFireflyTransaction w (Some p) s1 = (rc, s2)"
    by (cases "createFireflyTransaction w (Some p) s1")
  have "trace s2 = trace s @ [Mapped a (statement_id e), Post (Some p)]"
    using call_mapper_trace[OF m] createFireflyTransaction_trace[OF c] by simp
  moreover have "snd (fastify_post w (a, e) s) = s2"
    using m c by (simp add: fastify_post_def)
  ultimately show ?thesis using call_mapper_external_id[OF m] by simp
qed

text \<open>
  Claim C1, as stated, fails: the webhook handler keeps no record of the ids it has
  seen, so the same event delivered twice causes two creation requests for its id.
\<close>

theorem live_redelivery_counterexample:
  "creation_calls ''e1''
     (trace (snd (fastify_post quiet_world event_A (snd (fastify_post quiet_world event_A state0)))))
   = 2"
  by code_simp

text \<open>
  Claim C1, amended.  Within one backfill at most one creation request is made for any
  entry id, and none for the id of the starting statement.  The webhook handler makes
  one creation request for every delivery that the mapper maps to a payload, whatever
  was delivered or backfilled before.
\<close>

theorem creation_calls_within_pass:
  "(backfill w startingStatement s = Some (r, ids, s') \<longrightarrow>
      creation_calls i (added s s') \<le> 1 \<and>
      creation_calls (statement_id startingStatement) (added s s') = 0) \<and>
   (fst (call_mapper w accountId statementItem s) = Inr (Some p) \<longrightarrow>
      creation_calls (statement_id statementItem)
        (added s (snd (fastify_post w (accountId, statementItem) s))) = 1)"
proof (intro conjI impI)
  assume b: "backfill w startingStatement s = Some (r, ids, s')"
  from backfill_trace[OF b] obtain tr where tr:
    "added s s' = tr @ (if r = Inr () then [Recovered (int (length (mapped_ids tr)))] else [])"
    "ids = statement_id startingStatement # mapped_ids tr" "distinct ids"
    "\<forall>i. creation_calls i tr \<le> count_list (mapped_ids tr) i" by blast
  have c: "creation_calls j (added s s') = creation_calls j tr" for j
    using tr(1) by simp
  have d: "distinct (mapped_ids tr)" "statement_id startingStatement \<notin> set (mapped_ids tr)"
    using tr(2,3) by simp_all
  have "creation_calls i tr \<le> count_list (mapped_ids tr) i" using tr(4) by blast
  also have "\<dots> \<le> 1" by (rule count_list_distinct[OF d(1)])
  finally show "creation_calls i (added s s') \<le> 1" by (simp add: c)
  have "creation_calls (statement_id startingStatement) tr
          \<le> count_list (mapped_ids tr) (statement_id startingStatement)"
    using tr(4) by blast
  then show "creation_calls (statement_id startingStatement) (added s s') = 0"
    using count_list_notin[OF d(2)] by (simp add: c)
next
  assume "fst (call_mapper w accountId statementItem s) = Inr (Some p)"
  from fastify_post_trace[OF this]
  show "creation_calls (statement_id statementItem)
          (added s (snd (fastify_post w (accountId, statementItem) s))) = 1"
    by simp
qed

theorem creation_calls_within_pass_witness:
  "backfill world_two anchor_entry state0 \<noteq> None \<and>
   creation_calls ''new'' (added state0 (snd (snd (the (backfill world_two anchor_entry state0))))) = 1 \<and>
   creation_calls ''anchor'' (added state0 (snd (snd (the (backfill world_two anchor_entry state0))))) = 0 \<and>
   fst (call_mapper quiet_world (fst event_A) (snd event_A) state0) \<noteq> Inr None \<and>
   creation_calls ''e1'' (added state0 (snd (fastify_post quiet_world event_A state0))) = 1"
proof -
  let ?b = "the (backfill world_two anchor_entry state0)"
  let ?p = "the (projr (fst (call_mapper quiet_world (fst event_A) (snd event_A) state0)))"
  have h1: "backfill world_two anchor_entry state0 = Some (fst ?b, fst (snd ?b), snd (snd ?b))"
    by code_simp
  have h2: "fst (call_mapper quiet_world (fst event_A) (snd event_A) state0) = Inr (Some ?p)"
    by code_simp
  have n: "statement_id anchor_entry = ''anchor''" "statement_id (snd event_A) = ''e1''"
    by code_simp+
  have e: "(fst event_A, snd event_A) = event_A" by simp
  have c: "creation_calls ''new'' (added state0 (snd (snd ?b))) = 1" by code_simp
  have t1: "creation_calls (statement_id anchor_entry) (added state0 (snd (snd ?b))) = 0"
    using creation_calls_within_pass
      [where w = world_two and startingStatement = anchor_entry and s = state0]
      h1 by blast
  have t2: "creation_calls (statement_id (snd event_A))
              (added state0 (snd (fastify_post quiet_world (fst event_A, snd event_A) state0))) = 1"
    using creation_calls_within_pass
      [where w = quiet_world and accountId = "fst event_A" and statementItem = "snd event_A"
         and s = state0]
      h2 by blast
  have g1: "backfill world_two anchor_entry state0 \<noteq> None" by code_simp
  have g2: "fst (call_mapper quiet_world (fst event_A) (snd event_A) state0) \<noteq> Inr None"
    by code_simp
  from g1 g2 t1 t2 n c show ?thesis by simp
qed

section \<open>Skip and the writer\<close>

text \<open>
  Claim C2, evaluated: for an event on \<open>acc-B\<close>, whose iban no ledger account carries,
  the mapper returns \<^verbatim>\<open>null\<close>, and the webhook handler hands that \<^verbatim>\<open>null\<close> to
  \<^verbatim>\<open>createFireflyTransaction\<close>, which posts it.  The backfill does the same with the
  entry it fetches for \<open>acc-B\<close>.
\<close>

theorem skip_reaches_writer:
  "fst (monobankToFireflyTransaction quiet_world (fst event_B) (snd event_B) state0) = Inr None \<and>
   added state0 (snd (fastify_post quiet_world event_B state0))
     = [Mapped ''acc-B'' ''e2'', Post None] \<and>
   map_option (\<lambda>y. drop 3 (added state0 (snd (snd y)))) (backfill world_two anchor_entry state0)
     = Some [Fetch ''acc-B'' 100 None, Mapped ''acc-B'' ''other'', Post None, Recovered 2]"
  by code_simp

section \<open>The id set of a backfill\<close>

text \<open>
  Claim C4.  In one backfill the ids recorded in \<^verbatim>\<open>importedStatementIds\<close> are the
  starting statement's id followed by one id for every call of the mapper, in order,
  and no id is recorded twice.  So every id is mapped at most once, whatever the mapper
  returns for it, and has at most as many creation requests as mapper calls.  When the
  backfill ends without an error, the id of every statement that any account's page walk
  fetched is among the recorded ids.
\<close>

theorem backfill_records_each_id_once:
  assumes "backfill w startingStatement s = Some (r, ids, s')"
  shows "distinct ids \<and>
         ids = statement_id startingStatement # mapped_ids (added s s') \<and>
         (\<forall>i. count_list (mapped_ids (added s s')) i \<le> 1 \<and>
              creation_calls i (added s s') \<le> count_list (mapped_ids (added s s')) i) \<and>
         (r = Inr () \<longrightarrow> statement_id ` set (fetched_statements w (added s s')) \<subseteq> set ids)"
proof -
  from backfill_trace[OF assms] obtain tr where tr:
    "added s s' = tr @ (if r = Inr () then [Recovered (int (length (mapped_ids tr)))] else [])"
    "ids = statement_id startingStatement # mapped_ids tr" "distinct ids"
    "\<forall>i. creation_calls i tr \<le> count_list (mapped_ids tr) i"
    "r = Inr () \<longrightarrow> statement_id ` set (fetched_statements w tr) \<subseteq> set ids" by blast
  have m: "mapped_ids (added s s') = mapped_ids tr"
    and c: "\<And>i. creation_calls i (added s s') = creation_calls i tr"
    and f: "fetched_statements w (added s s') = fetched_statements w tr"
    using tr(1) by simp_all
  have d: "distinct (mapped_ids tr)" using tr(2,3) by simp
  show ?thesis
    using tr(2-5) count_list_distinct[OF d] by (simp add: m c f)
qed

theorem backfill_records_each_id_once_witness:
  "backfill world_two anchor_entry state0 \<noteq> None \<and>
   fst (the (backfill world_two anchor_entry state0)) = Inr () \<and>
   fst (snd (the (backfill world_two anchor_entry state0))) = [''anchor'', ''new'', ''other''] \<and>
   mapped_ids (added state0 (snd (snd (the (backfill world_two anchor_entry state0)))))
     = [''new'', ''other''] \<and>
   map statement_id
     (fetched_statements world_two
        (added state0 (snd (snd (the (backfill world_two anchor_entry state0))))))
     = [''new'', ''anchor'', ''other''] \<and>
   distinct (fst (snd (the (backfill world_two anchor_entry state0))))"
proof -
  let ?b = "the (backfill world_two anchor_entry state0)"
  have h: "backfill world_two anchor_entry state0 = Some (fst ?b, fst (snd ?b), snd (snd ?b))"
    by code_simp
  have g: "backfill world_two anchor_entry state0 \<noteq> None" "fst ?b = Inr ()"
    "fst (snd ?b) = [''anchor'', ''new'', ''other'']"
    "mapped_ids (added state0 (snd (snd ?b))) = [''new'', ''other'']"
    "map statement_id (fetched_statements world_two (added state0 (snd (snd ?b))))
       = [''new'', ''anchor'', ''other'']"
    by code_simp+
  from backfill_records_each_id_once [OF h] have "distinct (fst (snd ?b))" by blast
  with g show ?thesis by simp
qed

text \<open>
  Claim C10.  The id of the starting statement is the first id recorded; the mapper is
  never called with it and no creation request carries it, although a page walk may
  fetch the statement again (in the witness it does).  The count logged when the backfill
  is through is the size of the id set minus one, which is the number of mapper calls.
\<close>

theorem anchor_is_recorded_first:
  assumes "backfill w startingStatement s = Some (r, ids, s')"
  shows "hd ids = statement_id startingStatement \<and>
         statement_id startingStatement \<notin> set (mapped_ids (added s s')) \<and>
         creation_calls (statement_id startingStatement) (added s s') = 0 \<and>
         (r = Inr () \<longrightarrow>
            last (added s s') = Recovered (int (card (set ids)) - 1) \<and>
            int (card (set ids)) - 1 = int (length (mapped_ids (added s s'))))"
proof -
  from backfill_trace[OF assms] obtain tr where tr:
    "added s s' = tr @ (if r = Inr () then [Recovered (int (length (mapped_ids tr)))] else [])"
    "ids = statement_id startingStatement # mapped_ids tr" "distinct ids"
    "\<forall>i. creation_calls i tr \<le> count_list (mapped_ids tr) i" by blast
  have m: "mapped_ids (added s s') = mapped_ids tr"
    and c: "\<And>i. creation_calls i (added s s') = creation_calls i tr"
    using tr(1) by simp_all
  have n: "statement_id startingStatement \<notin> set (mapped_ids tr)" using tr(2,3) by simp
  have "creation_calls (statement_id startingStatement) tr
          \<le> count_list (mapped_ids tr) (statement_id startingStatement)"
    using tr(4) by blast
  then have z: "creation_calls (statement_id startingStatement) tr = 0"
    using count_list_notin[OF n] by simp
  have "card (set ids) = length ids" using tr(3) by (rule distinct_card)
  then have k: "int (card (set ids)) - 1 = int (length (mapped_ids tr))" using tr(2) by simp
  show ?thesis using tr(1,2) n z k by (simp add: m c)
qed

theorem anchor_is_recorded_first_witness:
  "backfill world_two anchor_entry state0 \<noteq> None \<and>
   fst (the (backfill world_two anchor_entry state0)) = Inr () \<and>
   anchor_entry \<in> set (fetched_statements world_two
       (added state0 (snd (snd (the (backfill world_two anchor_entry state0)))))) \<and>
   statement_id anchor_entry
     \<notin> set (mapped_ids (added state0 (snd (snd (the (backfill world_two anchor_entry state0)))))) \<and>
   last (added state0 (snd (snd (the (backfill world_two anchor_entry state0))))) = Recovered 2"
proof -
  let ?b = "the (backfill world_two anchor_entry state0)"
  have h: "backfill world_two anchor_entry state0 = Some (fst ?b, fst (snd ?b), snd (snd ?b))"
    by code_simp
  have g: "backfill world_two anchor_entry state0 \<noteq> None" "fst ?b = Inr ()"
    "anchor_entry \<in> set (fetched_statements world_two (added state0 (snd (snd ?b))))"
    "last (added state0 (snd (snd ?b))) = Recovered 2"
    by code_simp+
  from anchor_is_recorded_first [OF h]
  have "statement_id anchor_entry \<notin> set (mapped_ids (added state0 (snd (snd ?b))))" by blast
  with g show ?thesis by simp
qed

section \<open>An unknown currency code\<close>

lemma mapper_trace_update:
  "fst (monobankToFireflyTransaction w a e (s\<lparr>trace := tr\<rparr>))
     = fst (monobankToFireflyTransaction w a e s)"
  unfolding monobankToFireflyTransaction_def getMonobankClientData_def
  by (auto simp: Let_def split: sum.splits option.splits prod.splits)

lemma call_mapper_result:
  "fst (call_mapper w a e s) = fst (monobankToFireflyTransaction w a e s)"
  unfolding call_mapper_def by (rule mapper_trace_update)






section \<open>The anchor search\<close>







section \<open>A world in which nothing throws\<close>

lemma mapper_no_error:
  assumes "\<not> isl (personal_client_info w)"
      and "currencyCodes_number w (statement_currencyCode e) \<noteq> None"
  shows "\<not> isl (fst (monobankToFireflyTransaction w a e s))"
proof -
  from assms(1) obtain d where "personal_client_info w = Inr d"
    by (cases "personal_client_info w") simp_all
  then have "\<not> isl (fst (getMonobankClientData w False s))"
    by (auto simp: getMonobankClientData_def Let_def split: option.splits)
  then obtain accounts s' where "getMonobankClientData w False s = (Inr accounts, s')"
    by (cases "getMonobankClientData w False s"; cases "fst (getMonobankClientData w False s)") auto
  then show ?thesis
    using assms(2) unfolding monobankToFireflyTransaction_def
    by (auto split: option.splits)
qed

lemma import_no_error:
  "error_free w page \<Longrightarrow> fst (import_statements w a page ids s) = Inr ()"
proof (induction page arbitrary: ids s)
  case Nil
  then show ?case by simp
next
  case (Cons e page)
  have ef: "error_free w page" and cur: "currencyCodes_number w (statement_currencyCode e) \<noteq> None"
    and cl: "\<not> isl (personal_client_info w)" and post: "\<And>t. post_transactions w t = None"
    using Cons.prems by (simp_all add: error_free_def)
  show ?case
  proof (cases "statement_id e \<in> set ids")
    case True
    with Cons.IH[OF ef] show ?thesis by simp
  next
    case False
    obtain rm s1 where m: "call_mapper w a e s = (rm, s1)" by (cases "call_mapper w a e s")
    have "\<not> isl rm"
      using mapper_no_error[OF cl cur, of a s] m call_mapper_result[of w a e s] by simp
    then obtain t where rm: "rm = Inr t" by (cases rm) simp_all
    obtain s2 where c: "createFireflyTransaction w t s1 = (Inr (), s2)"
      using post by (simp add: createFireflyTransaction_def Let_def)
    show ?thesis using False m rm c Cons.IH[OF ef] by simp
  qed
qed

lemma error_free_subset:
  "error_free w entries \<Longrightarrow> set page \<subseteq> set entries \<Longrightarrow> error_free w page"
  by (auto simp: error_free_def list_all_iff)

section \<open>The bank's pages\<close>

lemma in_window_Some:
  "in_window from (Some t) e \<longleftrightarrow> in_window from None e \<and> statement_seconds e \<le> t"
  by (auto simp: in_window_def)

lemma statement_source_subset: "set (statement_source history from to) \<subseteq> set (in_range history from)"
  by (cases to) (auto simp: statement_source_def in_range_def in_window_def dest: in_set_takeD)

lemma newest_first_filter: "newest_first history \<Longrightarrow> newest_first (filter P history)"
  unfolding newest_first_def by (rule sorted_wrt_filter)

lemma short_page:
  assumes "length (statement_source history from to) < 500"
  shows "statement_source history from to = filter (in_window from to) history"
  using assms unfolding statement_source_def by (simp add: min_def split: if_splits)

lemma full_page:
  assumes "\<not> length (statement_source history from to) < 500"
  shows "length (statement_source history from to) = 500"
  using assms unfolding statement_source_def by simp

text \<open>Behind a full page there is nothing newer than its last entry.\<close>

lemma behind_full_page:
  assumes "newest_first history"
      and "length (statement_source history from to) = 500"
      and "e \<in> set history" and "in_window from to e"
      and "statement_seconds (last (statement_source history from to)) < statement_seconds e"
  shows "e \<in> set (statement_source history from to)"
proof (rule ccontr)
  let ?F = "filter (in_window from to) history"
  let ?page = "statement_source history from to"
  assume n: "e \<notin> set ?page"
  have page: "?page = take 500 ?F" by (simp add: statement_source_def)
  have "e \<in> set ?F" using assms(3,4) by simp
  then have "e \<in> set (take 500 ?F) \<union> set (drop 500 ?F)"
    by (metis append_take_drop_id set_append)
  with n page have d: "e \<in> set (drop 500 ?F)" by simp
  have "?page \<noteq> []" using assms(2) by auto
  then have l: "last ?page \<in> set (take 500 ?F)" using page by (metis last_in_set)
  have "sorted_wrt (\<lambda>x y. statement_seconds y \<le> statement_seconds x) (take 500 ?F @ drop 500 ?F)"
    using newest_first_filter[OF assms(1), of "in_window from to"]
    by (simp add: newest_first_def)
  then have "statement_seconds e \<le> statement_seconds (last ?page)"
    using d l unfolding sorted_wrt_append by blast
  with assms(5) show False by simp
qed

text \<open>The last entry of a page is its oldest.\<close>

lemma last_is_oldest:
  assumes "newest_first history" and "x \<in> set (statement_source history from to)"
  shows "statement_seconds (last (statement_source history from to)) \<le> statement_seconds x"
proof -
  let ?page = "statement_source history from to"
  have s: "sorted_wrt (\<lambda>x y. statement_seconds y \<le> statement_seconds x) ?page"
    using newest_first_filter[OF assms(1), of "in_window from to"]
    unfolding statement_source_def newest_first_def by (rule sorted_wrt_take)
  have ne: "?page \<noteq> []" using assms(2) by auto
  then have "?page = butlast ?page @ [last ?page]" by simp
  then have "sorted_wrt (\<lambda>x y. statement_seconds y \<le> statement_seconds x)
               (butlast ?page @ [last ?page])"
    using s by simp
  then have b: "\<forall>y \<in> set (butlast ?page). statement_seconds (last ?page) \<le> statement_seconds y"
    unfolding sorted_wrt_append by simp
  from assms(2) ne have "x = last ?page \<or> x \<in> set (butlast ?page)"
    by (metis append_butlast_last_id in_set_conv_decomp_last insert_iff list.set(2) rotate1.simps(2) set_rotate1 snoc_eq_iff_butlast)
  with b show ?thesis by auto
qed

lemma filter_take_filter_length:
  "length (filter Q (take n (filter P xs))) \<le> length (filter Q xs)"
proof -
  have "length (filter Q (take n (filter P xs))) \<le> length (filter Q (filter P xs))"
    by (metis append_take_drop_id filter_append le_add1 length_append)
  also have "\<dots> \<le> length (filter Q xs)"
    by (induction xs) auto
  finally show ?thesis .
qed

text \<open>A full page holds an entry newer than its last one, unless 500 entries share a second.\<close>

lemma full_page_has_newer:
  assumes "newest_first history" and "entries_at history t < 500" 
      and "length (statement_source history from to) = 500"
      and "t = statement_seconds (last (statement_source history from to))"
  shows "\<exists>x \<in> set (statement_source history from to). t < statement_seconds x"
proof (rule ccontr)
  let ?page = "statement_source history from to"
  assume "\<not> ?thesis"
  then have "\<forall>x \<in> set ?page. statement_seconds x = t"
    using last_is_oldest[OF assms(1), of _ "from" to] assms(4) by force
  then have "filter (\<lambda>e. statement_seconds e = t) ?page = ?page" by (simp add: filter_id_conv)
  then have "length (filter (\<lambda>e. statement_seconds e = t) ?page) = 500" using assms(3) by simp
  moreover have "length (filter (\<lambda>e. statement_seconds e = t) ?page) \<le> entries_at history t"
    unfolding statement_source_def entries_at_def by (rule filter_take_filter_length)
  ultimately show False using assms(2) by simp
qed

lemma walk_measure_decreases:
  assumes "newest_first history" and "\<forall>t. entries_at history t < 500"
      and "length (statement_source history from to) = 500"
  shows "walk_measure history (Some (statement_seconds (last (statement_source history from to))))
           < walk_measure history to"
proof (cases to)
  case None
  then show ?thesis by (simp add: walk_measure_def le_imp_less_Suc)
next
  case (Some t)
  let ?page = "statement_source history from to"
  let ?t' = "statement_seconds (last ?page)"
  from full_page_has_newer[OF assms(1) _ assms(3) refl] assms(2)
  obtain x where x: "x \<in> set ?page" "?t' < statement_seconds x" by blast
  have xin: "x \<in> set history" "statement_seconds x \<le> t"
    using x(1) Some by (auto simp: statement_source_def in_window_def dest: in_set_takeD)
  have "?page \<noteq> []" using assms(3) by auto
  then have "last ?page \<in> set ?page" by simp
  then have le: "?t' \<le> t"
    using Some by (auto simp: statement_source_def in_window_def dest: in_set_takeD)
  have "filter (\<lambda>e. statement_seconds e \<le> ?t') history
          = filter (\<lambda>e. statement_seconds e \<le> ?t') (filter (\<lambda>e. statement_seconds e \<le> t) history)"
    using le by (auto intro: filter_cong)
  moreover have "length (filter (\<lambda>e. statement_seconds e \<le> ?t')
                           (filter (\<lambda>e. statement_seconds e \<le> t) history))
                   < length (filter (\<lambda>e. statement_seconds e \<le> t) history)"
    using xin x(2) by (intro length_filter_less[of x]) auto
  ultimately show ?thesis using Some by (simp add: walk_measure_def)
qed

text \<open>The page loop against the bank of the specification.\<close>

lemma page_walk_general:
  assumes bank: "personal_statement w a = (\<lambda>f t. Inr (statement_source history f t))"
      and sorted: "newest_first history"
      and ties: "\<forall>t. entries_at history t < 500"
  shows "\<forall>e \<in> set (in_range history from). \<not> in_window from to e \<longrightarrow> statement_id e \<in> set ids \<Longrightarrow>
         \<exists>r ids' s'. page_walk w a from to ids s = Some (r, ids', s') \<and>
           set ids' \<subseteq> set ids \<union> statement_id ` set (in_range history from) \<and>
           (r = Inr () \<longrightarrow> statement_id ` set (in_range history from) \<subseteq> set ids') \<and>
           (error_free w (in_range history from) \<longrightarrow> r = Inr ())"
proof (induction "walk_measure history to" arbitrary: to ids s rule: less_induct)
  case less
  let ?R = "in_range history from"
  let ?page = "statement_source history from to"
  let ?sf = "s\<lparr>trace := trace s @ [Fetch a from to]\<rparr>"
  have f: "getMonobankStatements w a from to s = (Inr ?page, ?sf)"
    by (simp add: getMonobankStatements_def bank)
  obtain ri ids1 s2 where i: "import_statements w a ?page ids ?sf = (ri, ids1, s2)"
    by (cases "import_statements w a ?page ids ?sf") auto
  from import_statements_trace[OF i] obtain tr where tr:
    "ids1 = ids @ mapped_ids tr" "set (mapped_ids tr) \<subseteq> statement_id ` set ?page"
    "ri = Inr () \<longrightarrow> statement_id ` set ?page \<subseteq> set ids1" by blast
  have pR: "set ?page \<subseteq> set ?R" by (rule statement_source_subset)
  have sub1: "set ids1 \<subseteq> set ids \<union> statement_id ` set ?R"
    using tr(1,2) pR by auto
  have ef: "error_free w ?R \<longrightarrow> ri = Inr ()"
    using import_no_error[OF error_free_subset[OF _ pR], of w a ids ?sf] i by auto
  show ?case
  proof (cases ri)
    case (Inl err)
    then have "page_walk w a from to ids s = Some (Inl err, ids1, s2)"
      using f i by (subst page_walk.simps) simp
    with sub1 ef Inl show ?thesis by auto
  next
    case (Inr u)
    then have cov: "statement_id ` set ?page \<subseteq> set ids1" using tr(3) by simp
    show ?thesis
    proof (cases "length ?page < 500")
      case True
      have pw: "page_walk w a from to ids s = Some (Inr (), ids1, s2)"
        using f i Inr True by (subst page_walk.simps) simp
      have "statement_id e \<in> set ids1" if "e \<in> set ?R" for e
      proof (cases "in_window from to e")
        case True
        with that have "e \<in> set (filter (in_window from to) history)"
          by (simp add: in_range_def)
        then have "e \<in> set ?page" using short_page[OF \<open>length ?page < 500\<close>] by simp
        with cov show ?thesis by auto
      next
        case False
        with less.prems that tr(1) show ?thesis by auto
      qed
      with pw sub1 show ?thesis by auto
    next
      case False
      then have full: "length ?page = 500" by (rule full_page)
      let ?t' = "statement_seconds (last ?page)"
      have pw: "page_walk w a from to ids s = page_walk w a from (Some ?t') ids1 s2"
        using f i Inr False
        by (subst page_walk.simps) (simp add: statement_seconds_def)
      have m: "walk_measure history (Some ?t') < walk_measure history to"
        using walk_measure_decreases[OF sorted ties full] .
      have pre: "\<forall>e \<in> set ?R. \<not> in_window from (Some ?t') e \<longrightarrow> statement_id e \<in> set ids1"
      proof (intro ballI impI)
        fix e assume e: "e \<in> set ?R" "\<not> in_window from (Some ?t') e"
        then have newer: "?t' < statement_seconds e" and eh: "e \<in> set history"
          by (auto simp: in_range_def in_window_def)
        show "statement_id e \<in> set ids1"
        proof (cases "in_window from to e")
          case True
          from behind_full_page[OF sorted full eh True newer] cov show ?thesis by auto
        next
          case False
          with less.prems e(1) tr(1) show ?thesis by auto
        qed
      qed
      from less.hyps[OF m pre, of s2] obtain r ids' s' where
        "page_walk w a from (Some ?t') ids1 s2 = Some (r, ids', s')"
        "set ids' \<subseteq> set ids1 \<union> statement_id ` set ?R"
        "r = Inr () \<longrightarrow> statement_id ` set ?R \<subseteq> set ids'"
        "error_free w ?R \<longrightarrow> r = Inr ()" by blast
      with pw sub1 show ?thesis by auto
    qed
  qed
qed

section \<open>Histories with different times\<close>

lemma older_from:
  assumes "strictly_newest_first R" and "k < length R"
  shows "filter (\<lambda>e. statement_seconds e \<le> statement_seconds (R ! k)) R = drop k R"
proof -
  have s: "sorted_wrt (\<lambda>x y. statement_seconds y < statement_seconds x) (take k R @ drop k R)"
    using assms(1) by (simp add: strictly_newest_first_def)
  have hd: "R ! k \<in> set (drop k R)"
    using assms(2) by (metis Cons_nth_drop_Suc list.set_intros(1))
  have "\<forall>x \<in> set (take k R). \<not> statement_seconds x \<le> statement_seconds (R ! k)"
    using s hd unfolding sorted_wrt_append by force
  then have a: "filter (\<lambda>e. statement_seconds e \<le> statement_seconds (R ! k)) (take k R) = []"
    by (simp add: filter_empty_conv)
  have d: "drop k R = R ! k # drop (Suc k) R"
    using assms(2) by (simp add: Cons_nth_drop_Suc)
  have "sorted_wrt (\<lambda>x y. statement_seconds y < statement_seconds x) (drop k R)"
    using s unfolding sorted_wrt_append by simp
  then have "\<forall>y \<in> set (drop (Suc k) R). statement_seconds y < statement_seconds (R ! k)"
    unfolding d by simp
  then have "\<forall>y \<in> set (drop k R). statement_seconds y \<le> statement_seconds (R ! k)"
    by (subst d) auto
  then have b: "filter (\<lambda>e. statement_seconds e \<le> statement_seconds (R ! k)) (drop k R) = drop k R"
    by (simp add: filter_id_conv)
  have "filter (\<lambda>e. statement_seconds e \<le> statement_seconds (R ! k)) (take k R @ drop k R) = drop k R"
    unfolding filter_append a b by simp
  then show ?thesis by simp
qed

lemma statement_source_in_range:
  "statement_source history from to
     = take 500 (filter (\<lambda>e. case to of None \<Rightarrow> True | Some t \<Rightarrow> statement_seconds e \<le> t)
                  (in_range history from))"
proof -
  have "in_window from to
          = (\<lambda>e. in_window from None e \<and>
                  (case to of None \<Rightarrow> True | Some t \<Rightarrow> statement_seconds e \<le> t))"
    by (auto simp: in_window_def fun_eq_iff split: option.splits)
  then show ?thesis
    by (simp add: statement_source_def in_range_def)
qed

lemma page_from:
  assumes "strictly_newest_first (in_range history from)"
      and "to = None \<and> k = 0 \<or> k < length (in_range history from) \<and>
             to = Some (statement_seconds (in_range history from ! k))"
  shows "statement_source history from to = take 500 (drop k (in_range history from))"
  using assms(2) older_from[OF assms(1), of k]
  by (auto simp: statement_source_in_range)

text \<open>One round of the page loop when nothing throws.\<close>

lemma strict_round:
  assumes bank: "personal_statement w a = (\<lambda>f t. Inr (statement_source history f t))"
      and strict: "strictly_newest_first (in_range history from)"
      and ef: "error_free w (in_range history from)"
      and to: "to = None \<and> k = 0 \<or> k < length (in_range history from) \<and>
                 to = Some (statement_seconds (in_range history from ! k))"
  shows "\<exists>ids1 s2 tr. trace s2 = trace s @ tr \<and> fetch_count tr = 1 \<and>
           (if length (in_range history from) - k < 500
            then page_walk w a from to ids s = Some (Inr (), ids1, s2)
            else page_walk w a from to ids s
                   = page_walk w a from
                       (Some (statement_seconds (in_range history from ! (k + 499)))) ids1 s2)"
proof -
  let ?R = "in_range history from"
  let ?page = "statement_source history from to"
  let ?sf = "s\<lparr>trace := trace s @ [Fetch a from to]\<rparr>"
  have page: "?page = take 500 (drop k ?R)" using page_from[OF strict to] .
  have f: "getMonobankStatements w a from to s = (Inr ?page, ?sf)"
    by (simp add: getMonobankStatements_def bank)
  have "fst (import_statements w a ?page ids ?sf) = Inr ()"
    using import_no_error[OF error_free_subset[OF ef statement_source_subset]] .
  then obtain ids1 s2 where i: "import_statements w a ?page ids ?sf = (Inr (), ids1, s2)"
    by (cases "import_statements w a ?page ids ?sf") auto
  from import_statements_trace[OF i] obtain tr where tr:
    "trace s2 = trace ?sf @ tr" "fetch_count tr = 0" by blast
  have t: "trace s2 = trace s @ (Fetch a from to # tr)" "fetch_count (Fetch a from to # tr) = 1"
    using tr by simp_all
  have len: "length ?page = min 500 (length ?R - k)" unfolding page by simp
  show ?thesis
  proof (cases "length ?R - k < 500")
    case True
    then have "page_walk w a from to ids s = Some (Inr (), ids1, s2)"
      using f i len by (subst page_walk.simps) simp
    with t True show ?thesis by (intro exI[of _ ids1] exI[of _ s2] exI[of _ "Fetch a from to # tr"]) simp
  next
    case False
    have l500: "length ?page = 500" using len False by simp
    then have "?page \<noteq> []" by auto
    then have "last ?page = ?page ! (length ?page - 1)" by (rule last_conv_nth)
    then have "last ?page = ?page ! 499" using l500 by simp
    also have "\<dots> = ?R ! (k + 499)" unfolding page using False by simp
    finally have l: "last ?page = ?R ! (k + 499)" .
    have "page_walk w a from to ids s
            = page_walk w a from (Some (statement_seconds (?R ! (k + 499)))) ids1 s2"
      using f i len False l
      by (subst page_walk.simps) (simp add: statement_seconds_def)
    with t False show ?thesis by (intro exI[of _ ids1] exI[of _ s2] exI[of _ "Fetch a from to # tr"]) simp
  qed
qed

lemma three_fetches:
  assumes bank: "personal_statement w a = (\<lambda>f t. Inr (statement_source history f t))"
      and strict: "strictly_newest_first (in_range history from)"
      and ef: "error_free w (in_range history from)"
      and len: "length (in_range history from) = 1200"
  shows "\<exists>ids' s'. page_walk w a from None ids s = Some (Inr (), ids', s') \<and>
                   fetch_count (added s s') = 3"
proof -
  let ?R = "in_range history from"
  from strict_round[OF bank strict ef, of None 0 s ids] len
  obtain ids1 s1 tr1 where 1: "trace s1 = trace s @ tr1" "fetch_count tr1 = 1"
    "page_walk w a from None ids s = page_walk w a from (Some (statement_seconds (?R ! 499))) ids1 s1"
    by auto
  from strict_round[OF bank strict ef, of "Some (statement_seconds (?R ! 499))" 499 s1 ids1] len
  obtain ids2 s2 tr2 where 2: "trace s2 = trace s1 @ tr2" "fetch_count tr2 = 1"
    "page_walk w a from (Some (statement_seconds (?R ! 499))) ids1 s1
       = page_walk w a from (Some (statement_seconds (?R ! 998))) ids2 s2"
    by auto
  from strict_round[OF bank strict ef, of "Some (statement_seconds (?R ! 998))" 998 s2 ids2] len
  obtain ids3 s3 tr3 where 3: "trace s3 = trace s2 @ tr3" "fetch_count tr3 = 1"
    "page_walk w a from (Some (statement_seconds (?R ! 998))) ids2 s2 = Some (Inr (), ids3, s3)"
    by auto
  have "trace s3 = trace s @ (tr1 @ tr2 @ tr3)" using 1(1) 2(1) 3(1) by simp
  then have "added s s3 = tr1 @ tr2 @ tr3" by (rule added_append)
  then have "fetch_count (added s s3) = 3" using 1(2) 2(2) 3(2) by simp
  with 1(3) 2(3) 3(3) show ?thesis by (intro exI[of _ ids3] exI[of _ s3]) simp
qed

section \<open>The synthetic histories\<close>

lemma entry_seconds [simp]: "statement_seconds (entry i t a b c) = t"
  by (simp add: statement_seconds_def getUnixTime_def entry_def)

lemma entry_id [simp]: "statement_id (entry i t a b c) = i"
  by (simp add: entry_def)

lemma entry_currency [simp]: "statement_currencyCode (entry i t a b c) = c"
  by (simp add: entry_def)

lemma synthetic_strict: "strictly_newest_first (synthetic n)"
proof -
  have "sorted_wrt (\<lambda>x y. int x < int y) [0..<n]"
    using sorted_wrt_upt[of 0 n] by (rule sorted_wrt_mono_rel[rotated]) simp
  then show ?thesis
    by (simp add: strictly_newest_first_def synthetic_def sorted_wrt_map sorted_wrt_rev)
qed

lemma strict_newest_first: "strictly_newest_first R \<Longrightarrow> newest_first R"
  unfolding strictly_newest_first_def newest_first_def
  using sorted_wrt_mono_rel[of R "\<lambda>x y. statement_seconds y < statement_seconds x"
      "\<lambda>x y. statement_seconds y \<le> statement_seconds x"]
  by auto

lemma strict_entries_at: "strictly_newest_first R \<Longrightarrow> entries_at R t \<le> 1"
proof (induction R)
  case Nil
  then show ?case by (simp add: entries_at_def)
next
  case (Cons x R)
  then have lt: "\<forall>y \<in> set R. statement_seconds y < statement_seconds x"
    and s: "strictly_newest_first R"
    by (simp_all add: strictly_newest_first_def)
  show ?case
  proof (cases "statement_seconds x = t")
    case True
    with lt have "filter (\<lambda>e. statement_seconds e = t) R = []"
      by (auto simp: filter_empty_conv)
    with True show ?thesis by (simp add: entries_at_def)
  next
    case False
    with Cons.IH[OF s] show ?thesis by (simp add: entries_at_def)
  qed
qed

lemma synthetic_in_range: "in_range (synthetic n) 0 = synthetic n"
  by (simp add: in_range_def in_window_def synthetic_def filter_id_conv)

lemma synthetic_length: "length (synthetic n) = n"
  by (simp add: synthetic_def)

lemma entry_name_inj: "inj entry_name"
proof (rule injI)
  fix x y assume "entry_name x = entry_name y"
  then have "length (entry_name x) = length (entry_name y)" by simp
  then show "x = y" by (simp add: entry_name_def)
qed

lemma synthetic_ids: "distinct (map statement_id (synthetic n))"
proof -
  have "map statement_id (synthetic n) = map entry_name (rev [0..<n])"
    by (simp add: synthetic_def)
  then show ?thesis
    using entry_name_inj by (simp add: distinct_map inj_on_def inj_def)
qed

lemma synthetic_world_bank:
  "personal_statement (synthetic_world history) ''acc-A''
     = (\<lambda>f t. Inr (statement_source history f t))"
  by (simp add: synthetic_world_def example_world_def)

lemma synthetic_world_error_free:
  "list_all (\<lambda>e. statement_currencyCode e = 980) entries \<Longrightarrow>
   error_free (synthetic_world history) entries"
  by (simp add: error_free_def synthetic_world_def example_world_def list_all_iff)

lemma synthetic_error_free: "error_free (synthetic_world history) (synthetic n)"
  by (rule synthetic_world_error_free) (simp add: synthetic_def list_all_iff)

lemma same_second_error_free: "error_free (synthetic_world history) (same_second n)"
  by (rule synthetic_world_error_free) (simp add: same_second_def list_all_iff)

lemma same_second_page:
  assumes "to = None \<or> to = Some 100"
  shows "statement_source (same_second 1200) 100 to = take 500 (same_second 1200)"
proof -
  have "\<forall>e \<in> set (same_second 1200). in_window 100 to e"
    using assms by (auto simp: same_second_def in_window_def)
  then show ?thesis by (simp add: statement_source_def filter_id_conv)
qed

lemma same_second_last:
  "statement_seconds (last (take 500 (same_second 1200))) = 100"
proof -
  have "take 500 (same_second 1200) \<noteq> []" by (simp add: same_second_def)
  then have "last (take 500 (same_second 1200)) \<in> set (take 500 (same_second 1200))"
    by (rule last_in_set)
  then have "last (take 500 (same_second 1200)) \<in> set (same_second 1200)"
    by (rule in_set_takeD)
  then show ?thesis by (auto simp: same_second_def)
qed

text \<open>With 1200 entries in one second every page is the same full page.\<close>

lemma same_second_never_returns:
  assumes "page_walk w a from to ids s = Some y"
  shows "w = synthetic_world (same_second 1200) \<longrightarrow> a = ''acc-A'' \<longrightarrow> from = 100 \<longrightarrow>
         (to = None \<or> to = Some 100) \<longrightarrow> False"
  using assms
proof (induction rule: page_walk_induct)
  case (round page_walk' w a "from" to ids s y)
  show ?case
  proof (intro impI)
    assume w: "w = synthetic_world (same_second 1200)" and a: "a = ''acc-A''"
      and f: "from = 100" and to: "to = None \<or> to = Some 100"
    let ?page = "take 500 (same_second 1200)"
    let ?sf = "s\<lparr>trace := trace s @ [Fetch a from to]\<rparr>"
    have g: "getMonobankStatements w a from to s = (Inr ?page, ?sf)"
      using same_second_page[OF to]
      by (simp add: getMonobankStatements_def w a f synthetic_world_bank)
    have "error_free w ?page"
      using same_second_error_free[of "same_second 1200" 1200] unfolding w
      by (rule error_free_subset) (auto dest: in_set_takeD)
    from import_no_error[OF this, of a ids ?sf]
    obtain ids1 s2 where i: "import_statements w a ?page ids ?sf = (Inr (), ids1, s2)"
      by (cases "import_statements w a ?page ids ?sf") auto
    have len: "length ?page = 500" by (simp add: same_second_def)
    have "page_walk' w a from (Some 100) ids1 s2 = Some y"
      using round(2) g i len same_second_last by (simp add: statement_seconds_def)
    from round(1)[OF this] w a f show False by simp
  qed
qed

section \<open>The page walk\<close>

text \<open>
  Claim C5, as stated, fails: for an account with 1200 entries in range and a page cap
  of 500, all entries in the same second, every fetch returns the same full page and
  sets \<open>to\<close> to the same second again.  The walk never ends, and the entries behind the
  first page are never fetched.
\<close>

theorem same_second_counterexample:
  "page_walk (synthetic_world (same_second 1200)) ''acc-A'' 100 None [] state0 = None \<and>
   length (in_range (same_second 1200) 100) = 1200"
proof -
  have "page_walk (synthetic_world (same_second 1200)) ''acc-A'' 100 None [] state0 = None"
  proof (cases "page_walk (synthetic_world (same_second 1200)) ''acc-A'' 100 None [] state0")
    case None
    then show ?thesis .
  next
    case (Some y)
    from same_second_never_returns[OF this] show ?thesis by simp
  qed
  moreover have "in_range (same_second 1200) 100 = same_second 1200"
    by (simp add: in_range_def in_window_def same_second_def filter_id_conv)
  ultimately show ?thesis by (simp add: same_second_def)
qed

text \<open>
  Claim C5, amended.  Against a bank that returns the entries of a window newest first,
  both bounds inclusive, in pages of at most 500, and for a history in which fewer than
  500 entries share any one second, the page walk ends.  It has called the mapper once
  for every id it added to the id set; when it ends without an error the id set has
  grown by exactly the ids of the entries from the lower bound on, so with different
  entry ids, none of them seen before, every entry in range is mapped exactly once.
  Nothing throws in a world that is free of errors for these entries.  For 1200
  entries in range with different times the walk makes exactly 3 fetches.
\<close>

theorem page_walk_complete:
  assumes "personal_statement w a = (\<lambda>f t. Inr (statement_source history f t))"
      and "newest_first history"
      and "\<forall>t. entries_at history t < 500"
  shows "\<exists>r ids' s'.
           page_walk w a from None ids s = Some (r, ids', s') \<and>
           ids' = ids @ mapped_ids (added s s') \<and>
           (distinct ids \<longrightarrow> distinct ids') \<and>
           (error_free w (in_range history from) \<longrightarrow> r = Inr ()) \<and>
           (r = Inr () \<longrightarrow>
              set ids' = set ids \<union> statement_id ` set (in_range history from)) \<and>
           (r = Inr () \<longrightarrow> distinct ids \<longrightarrow> distinct (map statement_id (in_range history from)) \<longrightarrow>
            set ids \<inter> statement_id ` set (in_range history from) = {} \<longrightarrow>
              distinct (mapped_ids (added s s')) \<and>
              set (mapped_ids (added s s')) = statement_id ` set (in_range history from) \<and>
              length (mapped_ids (added s s')) = length (in_range history from)) \<and>
           (error_free w (in_range history from) \<longrightarrow>
            strictly_newest_first (in_range history from) \<longrightarrow>
            length (in_range history from) = 1200 \<longrightarrow>
              fetch_count (added s s') = 3)"
proof -
  let ?R = "in_range history from"
  have pre: "\<forall>e \<in> set ?R. \<not> in_window from None e \<longrightarrow> statement_id e \<in> set ids"
    by (simp add: in_range_def)
  from page_walk_general[OF assms pre, of s] obtain r ids' s' where
    pw: "page_walk w a from None ids s = Some (r, ids', s')"
    and sub: "set ids' \<subseteq> set ids \<union> statement_id ` set ?R"
    and cov: "r = Inr () \<longrightarrow> statement_id ` set ?R \<subseteq> set ids'"
    and ef: "error_free w ?R \<longrightarrow> r = Inr ()" by blast
  from page_walk_post[OF pw] obtain tr where tr: "trace s' = trace s @ tr"
    "ids' = ids @ mapped_ids tr" "pass_trace ids tr"
    by (auto simp: walk_post_def)
  have ad: "added s s' = tr" using tr(1) by (rule added_append)
  have d: "distinct ids \<longrightarrow> distinct ids'" using tr(2,3) by (simp add: pass_trace_def)
  have eq: "r = Inr () \<longrightarrow> set ids' = set ids \<union> statement_id ` set ?R"
    using sub cov tr(2) by auto
  have once: "r = Inr () \<longrightarrow> distinct ids \<longrightarrow> distinct (map statement_id ?R) \<longrightarrow>
              set ids \<inter> statement_id ` set ?R = {} \<longrightarrow>
              distinct (mapped_ids tr) \<and> set (mapped_ids tr) = statement_id ` set ?R \<and>
              length (mapped_ids tr) = length ?R"
  proof (intro impI)
    assume that: "r = Inr ()" "distinct ids" "distinct (map statement_id ?R)"
       "set ids \<inter> statement_id ` set ?R = {}"
    have dm: "distinct (mapped_ids tr)" and dj: "set ids \<inter> set (mapped_ids tr) = {}"
      using d that(2) tr(2) by auto
    have "set ids \<union> set (mapped_ids tr) = set ids \<union> statement_id ` set ?R"
      using eq that(1) tr(2) by simp
    with dj that(4) have se: "set (mapped_ids tr) = statement_id ` set ?R" by blast
    have "length (mapped_ids tr) = card (set (mapped_ids tr))"
      using dm by (simp add: distinct_card)
    also have "\<dots> = card (set (map statement_id ?R))" using se by simp
    also have "\<dots> = length ?R" using that(3) distinct_card by fastforce
    finally show "distinct (mapped_ids tr) \<and> set (mapped_ids tr) = statement_id ` set ?R \<and>
              length (mapped_ids tr) = length ?R" using dm se by simp
  qed
  have three: "error_free w ?R \<longrightarrow> strictly_newest_first ?R \<longrightarrow> length ?R = 1200 \<longrightarrow>
               fetch_count tr = 3"
  proof (intro impI)
    assume that: "error_free w ?R" "strictly_newest_first ?R" "length ?R = 1200"
    from three_fetches[OF assms(1) that(2) that(1) that(3), of ids s] pw ad
    show "fetch_count tr = 3" by auto
  qed
  have "page_walk w a from None ids s = Some (r, ids', s') \<and>
        ids' = ids @ mapped_ids (added s s') \<and>
        (distinct ids \<longrightarrow> distinct ids') \<and>
        (error_free w ?R \<longrightarrow> r = Inr ()) \<and>
        (r = Inr () \<longrightarrow> set ids' = set ids \<union> statement_id ` set ?R) \<and>
        (r = Inr () \<longrightarrow> distinct ids \<longrightarrow> distinct (map statement_id ?R) \<longrightarrow>
         set ids \<inter> statement_id ` set ?R = {} \<longrightarrow>
           distinct (mapped_ids (added s s')) \<and>
           set (mapped_ids (added s s')) = statement_id ` set ?R \<and>
           length (mapped_ids (added s s')) = length ?R) \<and>
        (error_free w ?R \<longrightarrow> strictly_newest_first ?R \<longrightarrow> length ?R = 1200 \<longrightarrow>
           fetch_count (added s s') = 3)"
    unfolding ad using pw tr(2) d ef eq once three by (intro conjI)
  then show ?thesis by blast
qed

theorem page_walk_complete_witness:
  "personal_statement (synthetic_world (synthetic 1200)) ''acc-A''
     = (\<lambda>f t. Inr (statement_source (synthetic 1200) f t)) \<and>
   newest_first (synthetic 1200) \<and>
   strictly_newest_first (in_range (synthetic 1200) 0) \<and>
   error_free (synthetic_world (synthetic 1200)) (in_range (synthetic 1200) 0) \<and>
   length (in_range (synthetic 1200) 0) = 1200 \<and>
   distinct (map statement_id (in_range (synthetic 1200) 0)) \<and>
   (\<exists>ids' s'.
      page_walk (synthetic_world (synthetic 1200)) ''acc-A'' 0 None [] state0
        = Some (Inr (), ids', s') \<and>
      fetch_count (added state0 s') = 3 \<and>
      length (mapped_ids (added state0 s')) = 1200 \<and>
      distinct (mapped_ids (added state0 s')) \<and>
      set (mapped_ids (added state0 s')) = statement_id ` set (synthetic 1200))"
proof -
  let ?w = "synthetic_world (synthetic 1200)"
  have b: "personal_statement ?w ''acc-A'' = (\<lambda>f t. Inr (statement_source (synthetic 1200) f t))"
    by (rule synthetic_world_bank)
  have n: "newest_first (synthetic 1200)"
    by (rule strict_newest_first[OF synthetic_strict])
  have t: "\<forall>t. entries_at (synthetic 1200) t < 500"
  proof
    fix t
    have "entries_at (synthetic 1200) t \<le> 1" by (rule strict_entries_at[OF synthetic_strict])
    then show "entries_at (synthetic 1200) t < 500" by simp
  qed
  have r: "in_range (synthetic 1200) 0 = synthetic 1200" by (rule synthetic_in_range)
  have st: "strictly_newest_first (in_range (synthetic 1200) 0)"
    unfolding r by (rule synthetic_strict)
  have ef: "error_free ?w (in_range (synthetic 1200) 0)"
    unfolding r by (rule synthetic_error_free)
  have len: "length (in_range (synthetic 1200) 0) = 1200"
    unfolding r by (rule synthetic_length)
  have di: "distinct (map statement_id (in_range (synthetic 1200) 0))"
    unfolding r by (rule synthetic_ids)
  have "\<exists>ids' s'.
      page_walk ?w ''acc-A'' 0 None [] state0 = Some (Inr (), ids', s') \<and>
      fetch_count (added state0 s') = 3 \<and>
      length (mapped_ids (added state0 s')) = 1200 \<and>
      distinct (mapped_ids (added state0 s')) \<and>
      set (mapped_ids (added state0 s')) = statement_id ` set (synthetic 1200)"
    using page_walk_complete [OF b n t, of 0 "[]" state0]
  proof (elim exE conjE)
    fix res ids' s'
    assume pw: "page_walk ?w ''acc-A'' 0 None [] state0 = Some (res, ids', s')"
      and e: "error_free ?w (in_range (synthetic 1200) 0) \<longrightarrow> res = Inr ()"
      and once: "res = Inr () \<longrightarrow> distinct ([] :: string list) \<longrightarrow>
               distinct (map statement_id (in_range (synthetic 1200) 0)) \<longrightarrow>
               set [] \<inter> statement_id ` set (in_range (synthetic 1200) 0) = {} \<longrightarrow>
               distinct (mapped_ids (added state0 s')) \<and>
               set (mapped_ids (added state0 s')) = statement_id ` set (in_range (synthetic 1200) 0) \<and>
               length (mapped_ids (added state0 s')) = length (in_range (synthetic 1200) 0)"
      and three: "error_free ?w (in_range (synthetic 1200) 0) \<longrightarrow>
                strictly_newest_first (in_range (synthetic 1200) 0) \<longrightarrow>
                length (in_range (synthetic 1200) 0) = 1200 \<longrightarrow>
                fetch_count (added state0 s') = 3"
    have res: "res = Inr ()" using e ef by (rule mp)
    have d0: "distinct ([] :: string list)" by simp
    have i0: "set [] \<inter> statement_id ` set (in_range (synthetic 1200) 0) = {}" by simp
    note o = once[rule_format, OF res d0 di i0]
    have o1: "distinct (mapped_ids (added state0 s'))" using o by (rule conjunct1)
    have o2: "set (mapped_ids (added state0 s')) = statement_id ` set (synthetic 1200)"
      using o[THEN conjunct2, THEN conjunct1] unfolding r .
    have o3: "length (mapped_ids (added state0 s')) = 1200"
      using o[THEN conjunct2, THEN conjunct2] unfolding len .
    have f: "fetch_count (added state0 s') = 3" using three[rule_format, OF ef st len] .
    show ?thesis
      using pw[unfolded res] f o3 o1 o2 by (intro exI[of _ ids'] exI[of _ s'] conjI)
  qed
  with b n st ef len di show ?thesis by (intro conjI)
qed

end
